theory Spec2Isabelle
  imports Main "HOL-Library.Word" "HOL-Library.Log_Nat" "HOL-Library.AList"
begin

unbundle bit_operations_syntax

section \<open>Python values the scripts rely on\<close>

text \<open>
  Python integers are unbounded and are modelled as \<^typ>\<open>int\<close>. A Python \<open>str\<close> is
  modelled as \<^typ>\<open>string\<close>, one \<^typ>\<open>char\<close> per character, so the strings are those of
  characters below 256. \<open>None\<close> is the \<open>None\<close> of an option type.
\<close>

datatype py_error =
  TypeError | ValueError | AttributeError | KeyError | IndexError | StopIteration

text \<open>\<open>int.bit_length()\<close>: the number of bits of the absolute value.\<close>

definition bit_length :: "int \<Rightarrow> int" where
  "bit_length n = bitlen \<bar>n\<bar>"

definition digit_chars :: string where
  "digit_chars = ''0123456789abcdef''"

text \<open>\<open>str(n)\<close> and \<open>'%x' % n\<close> for a non-negative integer.\<close>

function str_dec :: "nat \<Rightarrow> string" where
  "str_dec n = (if n < 10 then [digit_chars ! n]
                else str_dec (n div 10) @ [digit_chars ! (n mod 10)])"
  by pat_completeness auto
termination
  by (relation "measure id") auto

function str_hex :: "nat \<Rightarrow> string" where
  "str_hex n = (if n < 16 then [digit_chars ! n]
                else str_hex (n div 16) @ [digit_chars ! (n mod 16)])"
  by pat_completeness auto
termination
  by (relation "measure id") auto

declare str_dec.simps [simp del] str_hex.simps [simp del]

definition str_int :: "int \<Rightarrow> string" where
  "str_int i = (if i < 0 then CHR ''-'' # str_dec (nat (- i)) else str_dec (nat i))"

definition is_ascii_digit :: "char \<Rightarrow> bool" where
  "is_ascii_digit c \<longleftrightarrow> c \<in> set ''0123456789''"

definition is_hex_digit :: "char \<Rightarrow> bool" where
  "is_hex_digit c \<longleftrightarrow> c \<in> set ''0123456789ABCDEFabcdef''"

text \<open>The value of one digit character, for \<open>int(s, 10)\<close> and \<open>int(s, 16)\<close>.\<close>

definition digit_val :: "char \<Rightarrow> int" where
  "digit_val c =
     (let n = (of_char c :: nat) in
      if n \<le> 57 then int n - 48
      else if 97 \<le> n then int n - 87
      else int n - 55)"

definition int_of_str :: "int \<Rightarrow> string \<Rightarrow> int" where
  "int_of_str base s = foldl (\<lambda>a c. a * base + digit_val c) 0 s"

text \<open>\<open>s.split(c)\<close> for a one-character separator: never the empty list.\<close>

fun split_on :: "char \<Rightarrow> string \<Rightarrow> string list" where
  "split_on c [] = [[]]"
| "split_on c (x # xs) =
     (if x = c then [] # split_on c xs
      else (case split_on c xs of
              [] \<Rightarrow> [[x]]
            | p # ps \<Rightarrow> (x # p) # ps))"

text \<open>\<open>sep.join(parts)\<close>.\<close>

fun join :: "string \<Rightarrow> string list \<Rightarrow> string" where
  "join sep [] = []"
| "join sep [p] = p"
| "join sep (p # q # ps) = p @ sep @ join sep (q # ps)"

text \<open>
  \<open>s.upper()\<close> and \<open>s.lower()\<close> on characters below 256: the letters \<open>a\<close> to \<open>z\<close> and
  the letters 224 to 246 and 248 to 254 have their upper-case form 32 below, and the
  upper-case form of 223 is \<open>SS\<close>. The upper-case forms of 181 and 255 lie beyond 255;
  these two characters are left as they are.
\<close>

definition upper_chars :: "char \<Rightarrow> string" where
  "upper_chars c =
     (let n = (of_char c :: nat) in
      if (97 \<le> n \<and> n \<le> 122) \<or> (224 \<le> n \<and> n \<le> 246) \<or> (248 \<le> n \<and> n \<le> 254)
      then [char_of (n - 32)]
      else if n = 223 then ''SS''
      else [c])"


definition upper :: "string \<Rightarrow> string" where
  "upper s = concat (map upper_chars s)"


text \<open>\<open>s.strip()\<close>: the leading and trailing whitespace removed.\<close>

definition is_space :: "char \<Rightarrow> bool" where
  "is_space c \<longleftrightarrow>
     (let n = (of_char c :: nat) in
      n = 32 \<or> (9 \<le> n \<and> n \<le> 13) \<or> (28 \<le> n \<and> n \<le> 31) \<or> n = 133 \<or> n = 160)"

definition strip :: "string \<Rightarrow> string" where
  "strip s = rev (dropWhile is_space (rev (dropWhile is_space s)))"

text \<open>\<open>str(x)\<close> of a value that is a string or \<open>None\<close>.\<close>

definition str_opt :: "string option \<Rightarrow> string" where
  "str_opt x = (case x of None \<Rightarrow> ''None'' | Some s \<Rightarrow> s)"

section \<open>The standard library's \<open>ipaddress\<close> module\<close>

text \<open>
  \<open>ip_range_to_cidrs\<close> and \<open>validate_cidr\<close> call \<open>ipaddress.ip_address\<close>,
  \<open>ipaddress.summarize_address_range\<close> and \<open>ipaddress.ip_network\<close>. The functions
  below follow the module's code (CPython 3.9 and later). An \<open>AddressValueError\<close> or
  \<open>NetmaskValueError\<close> inside a constructor is the result \<open>None\<close>.
\<close>

subsection \<open>Parsing addresses\<close>

definition parse_octet :: "string \<Rightarrow> int option" where
  "parse_octet octet_str =
     (if octet_str = [] then None
      else if \<not> list_all is_ascii_digit octet_str then None
      else if length octet_str > 3 then None
      else if octet_str \<noteq> ''0'' \<and> hd octet_str = CHR ''0'' then None
      else (let octet_int = int_of_str 10 octet_str in
            if octet_int > 255 then None else Some octet_int))"

text \<open>\<open>int.from_bytes(bs, 'big')\<close>.\<close>

definition from_bytes :: "int list \<Rightarrow> int" where
  "from_bytes bs = foldl (\<lambda>a b. a * 256 + b) 0 bs"

text \<open>All results, or \<open>None\<close> as soon as one element fails.\<close>

fun those_opt :: "'a option list \<Rightarrow> 'a list option" where
  "those_opt [] = Some []"
| "those_opt (None # xs) = None"
| "those_opt (Some x # xs) = (case those_opt xs of None \<Rightarrow> None | Some ys \<Rightarrow> Some (x # ys))"

definition v4_ip_int_from_string :: "string \<Rightarrow> int option" where
  "v4_ip_int_from_string ip_str =
     (if ip_str = [] then None
      else (let octets = split_on CHR ''.'' ip_str in
            if length octets \<noteq> 4 then None
            else map_option from_bytes (those_opt (map parse_octet octets))))"

text \<open>\<open>IPv4Address(addr_str)._ip\<close> for a string argument.\<close>

definition IPv4Address_ip :: "string \<Rightarrow> int option" where
  "IPv4Address_ip addr_str =
     (if CHR ''/'' \<in> set addr_str then None else v4_ip_int_from_string addr_str)"

definition parse_hextet :: "string \<Rightarrow> int option" where
  "parse_hextet hextet_str =
     (if \<not> list_all is_hex_digit hextet_str then None
      else if length hextet_str > 4 then None
      else if hextet_str = [] then None
      else Some (int_of_str 16 hextet_str))"

text \<open>
  The loop \<open>for i in range(1, len(parts) - 1)\<close> that looks for the one \<open>::\<close>:
  the outer \<open>None\<close> is the error "at most one \<open>::\<close> permitted".
\<close>

fun find_skip_index :: "string list \<Rightarrow> nat list \<Rightarrow> nat option \<Rightarrow> nat option option" where
  "find_skip_index parts [] skip_index = Some skip_index"
| "find_skip_index parts (i # is) skip_index =
     (if parts ! i = [] then
        (if skip_index \<noteq> None then None
         else find_skip_index parts is (Some i))
      else find_skip_index parts is skip_index)"

text \<open>An address with an IPv4-style suffix has the suffix replaced by two hextets.\<close>

definition convert_v4_suffix :: "string list \<Rightarrow> string list option" where
  "convert_v4_suffix parts =
     (if CHR ''.'' \<in> set (last parts) then
        (case IPv4Address_ip (last parts) of
           None \<Rightarrow> None
         | Some ipv4_int \<Rightarrow>
             Some (butlast parts @
                   [str_hex (nat (drop_bit 16 ipv4_int AND 0xFFFF)),
                    str_hex (nat (ipv4_int AND 0xFFFF))]))
      else Some parts)"

text \<open>
  \<open>parts_hi\<close>, \<open>parts_lo\<close> and \<open>parts_skipped\<close>: how many hextets stand before and
  after the \<open>::\<close> and how many zero hextets it stands for.
\<close>

definition hi_lo_skipped :: "string list \<Rightarrow> nat option \<Rightarrow> (nat \<times> nat \<times> nat) option" where
  "hi_lo_skipped parts skip_index =
     (case skip_index of
        Some i \<Rightarrow>
          (let parts_hi = i;
               parts_lo = length parts - i - 1;
               hi_err = (hd parts = [] \<and> parts_hi - 1 \<noteq> 0);
               parts_hi = (if hd parts = [] then parts_hi - 1 else parts_hi);
               lo_err = (last parts = [] \<and> parts_lo - 1 \<noteq> 0);
               parts_lo = (if last parts = [] then parts_lo - 1 else parts_lo)
           in if hi_err \<or> lo_err then None
              else if int 8 - int (parts_hi + parts_lo) < 1 then None
              else Some (parts_hi, parts_lo, 8 - (parts_hi + parts_lo)))
      | None \<Rightarrow>
          (if length parts \<noteq> 8 then None
           else if hd parts = [] then None
           else if last parts = [] then None
           else Some (length parts, 0, 0)))"

definition shift_in :: "int \<Rightarrow> int list \<Rightarrow> int" where
  "shift_in ip_int hextets = foldl (\<lambda>a h. push_bit 16 a OR h) ip_int hextets"

definition v6_ip_int_from_string :: "string \<Rightarrow> int option" where
  "v6_ip_int_from_string ip_str =
     (if ip_str = [] then None
      else (let parts = split_on CHR '':'' ip_str in
        if length parts < 3 then None
        else (case convert_v4_suffix parts of
          None \<Rightarrow> None
        | Some parts \<Rightarrow>
            if length parts > 9 then None
            else (case find_skip_index parts [1 ..< length parts - 1] None of
              None \<Rightarrow> None
            | Some skip_index \<Rightarrow>
                (case hi_lo_skipped parts skip_index of
                   None \<Rightarrow> None
                 | Some (parts_hi, parts_lo, parts_skipped) \<Rightarrow>
                     (case those_opt (map parse_hextet (take parts_hi parts)) of
                        None \<Rightarrow> None
                      | Some his \<Rightarrow>
                          (case those_opt (map parse_hextet
                                  (drop (length parts - parts_lo) parts)) of
                             None \<Rightarrow> None
                           | Some los \<Rightarrow>
                               Some (shift_in
                                 (push_bit (16 * parts_skipped) (shift_in 0 his)) los))))))))"

text \<open>\<open>addr, sep, scope_id = ip_str.partition('%')\<close> and its checks.\<close>

definition split_scope_id :: "string \<Rightarrow> (string \<times> string option) option" where
  "split_scope_id ip_str =
     (let addr = takeWhile (\<lambda>c. c \<noteq> CHR ''%'') ip_str;
          rest = dropWhile (\<lambda>c. c \<noteq> CHR ''%'') ip_str
      in if rest = [] then Some (addr, None)
         else if tl rest = [] \<or> CHR ''%'' \<in> set (tl rest) then None
         else Some (addr, Some (tl rest)))"

text \<open>An address object: its version, its \<open>_ip\<close> and, for IPv6, its \<open>_scope_id\<close>.\<close>

datatype ip_addr = IPv4Address int | IPv6Address int "string option"

definition IPv6Address_of :: "string \<Rightarrow> ip_addr option" where
  "IPv6Address_of addr_str =
     (if CHR ''/'' \<in> set addr_str then None
      else (case split_scope_id addr_str of
              None \<Rightarrow> None
            | Some (addr, scope_id) \<Rightarrow>
                (case v6_ip_int_from_string addr of
                   None \<Rightarrow> None
                 | Some ip \<Rightarrow> Some (IPv6Address ip scope_id))))"

text \<open>\<open>ipaddress.ip_address(address)\<close>: \<open>None\<close> is its \<open>ValueError\<close>.\<close>

definition ip_address :: "string \<Rightarrow> ip_addr option" where
  "ip_address address =
     (case IPv4Address_ip address of
        Some ip \<Rightarrow> Some (IPv4Address ip)
      | None \<Rightarrow> IPv6Address_of address)"

fun version :: "ip_addr \<Rightarrow> nat" where
  "version (IPv4Address _) = 4"
| "version (IPv6Address _ _) = 6"

fun ip_of :: "ip_addr \<Rightarrow> int" where
  "ip_of (IPv4Address ip) = ip"
| "ip_of (IPv6Address ip _) = ip"

fun max_prefixlen :: "nat \<Rightarrow> int" where
  "max_prefixlen v = (if v = 4 then 32 else 128)"

subsection \<open>Printing addresses and networks\<close>

definition v4_string_from_ip_int :: "int \<Rightarrow> string" where
  "v4_string_from_ip_int ip_int =
     join ''.'' (map (\<lambda>i. str_dec (nat (drop_bit (8 * (3 - i)) ip_int AND 0xFF))) [0 ..< 4])"

text \<open>
  One step of the loop of \<open>_compress_hextets\<close> over \<open>enumerate(hextets)\<close>; the state is
  \<open>(best_doublecolon_start, best_doublecolon_len, doublecolon_start, doublecolon_len)\<close>.
\<close>

definition compress_step :: "int \<times> int \<times> int \<times> int \<Rightarrow> nat \<times> string \<Rightarrow> int \<times> int \<times> int \<times> int" where
  "compress_step st ih =
     (case st of (best_start, best_len, dc_start, dc_len) \<Rightarrow>
      case ih of (index, hextet) \<Rightarrow>
        if hextet = ''0'' then
          (let dc_len = dc_len + 1;
               dc_start = (if dc_start = - 1 then int index else dc_start)
           in if dc_len > best_len then (dc_start, dc_len, dc_start, dc_len)
              else (best_start, best_len, dc_start, dc_len))
        else (best_start, best_len, - 1, 0))"

definition compress_hextets :: "string list \<Rightarrow> string list" where
  "compress_hextets hextets =
     (case foldl compress_step (- 1, 0, - 1, 0) (enumerate 0 hextets) of
        (best_start, best_len, _, _) \<Rightarrow>
          if best_len > 1 then
            (let best_end = best_start + best_len;
                 hextets = (if best_end = int (length hextets) then hextets @ [[]] else hextets);
                 hextets = take (nat best_start) hextets @ [[]] @ drop (nat best_end) hextets
             in if best_start = 0 then [] # hextets else hextets)
          else hextets)"

definition v6_string_from_ip_int :: "int \<Rightarrow> string" where
  "v6_string_from_ip_int ip_int =
     join '':'' (compress_hextets
       (map (\<lambda>i. str_hex (nat (drop_bit (16 * (7 - i)) ip_int AND 0xFFFF))) [0 ..< 8]))"

text \<open>A network object: version, \<open>network_address\<close> and \<open>prefixlen\<close>.\<close>

datatype ip_net = IPNetwork nat int int

fun net_version :: "ip_net \<Rightarrow> nat" where
  "net_version (IPNetwork v _ _) = v"

fun network_address :: "ip_net \<Rightarrow> int" where
  "network_address (IPNetwork _ a _) = a"

fun prefixlen :: "ip_net \<Rightarrow> int" where
  "prefixlen (IPNetwork _ _ p) = p"

text \<open>\<open>str(net)\<close>, that is \<open>'%s/%d' % (net.network_address, net.prefixlen)\<close>.\<close>

fun str_network :: "ip_net \<Rightarrow> string" where
  "str_network (IPNetwork v a p) =
     (if v = 4 then v4_string_from_ip_int a else v6_string_from_ip_int a) @ ''/'' @ str_int p"

text \<open>The addresses of a network: from its network address to its broadcast address.\<close>

definition net_last :: "ip_net \<Rightarrow> int" where
  "net_last n = network_address n + 2 ^ nat (max_prefixlen (net_version n) - prefixlen n) - 1"

definition net_addrs :: "ip_net \<Rightarrow> int set" where
  "net_addrs n = {network_address n .. net_last n}"

subsection \<open>Networks from an address and a prefix length\<close>

definition ALL_ONES :: "nat \<Rightarrow> int" where
  "ALL_ONES v = 2 ^ nat (max_prefixlen v) - 1"

definition ip_int_from_prefix :: "nat \<Rightarrow> int \<Rightarrow> int" where
  "ip_int_from_prefix v p = ALL_ONES v XOR drop_bit (nat p) (ALL_ONES v)"

text \<open>
  \<open>IPv4Network((addr, p))\<close> and \<open>IPv6Network((addr, p))\<close> with \<open>strict=True\<close>: the address
  is checked to be in range, the prefix length to be in range, and the address to have no
  host bits set. Each failure is a \<open>ValueError\<close> (or a subclass of it): \<open>None\<close>.
\<close>

definition network_from_tuple :: "nat \<Rightarrow> int \<times> int \<Rightarrow> ip_net option" where
  "network_from_tuple v ap =
     (case ap of (addr, p) \<Rightarrow>
        if addr < 0 \<or> addr > ALL_ONES v then None
        else if \<not> (0 \<le> p \<and> p \<le> max_prefixlen v) then None
        else if addr AND ip_int_from_prefix v p \<noteq> addr then None
        else Some (IPNetwork v addr p))"

subsection \<open>\<open>summarize_address_range\<close>\<close>

definition count_righthand_zero_bits :: "int \<Rightarrow> int \<Rightarrow> int" where
  "count_righthand_zero_bits number bits =
     (if number = 0 then bits
      else min bits (bit_length (NOT number AND (number - 1))))"

text \<open>
  The \<open>while first_int <= last_int\<close> loop, with the address and prefix length of each
  network it yields; the \<open>break\<close> is the inner conditional.
\<close>

function summarize_loop :: "int \<Rightarrow> int \<Rightarrow> int \<Rightarrow> (int \<times> int) list" where
  "summarize_loop ip_bits first_int last_int =
     (if first_int \<le> last_int then
        (let nbits = min (count_righthand_zero_bits first_int ip_bits)
                         (bit_length (last_int - first_int + 1) - 1);
             net = (first_int, ip_bits - nbits);
             first_int' = first_int + push_bit (nat nbits) 1
         in net # (if first_int' - 1 = 2 ^ nat ip_bits - 1 then []
                   else summarize_loop ip_bits first_int' last_int))
      else [])"
  by pat_completeness auto
termination
proof (relation "measure (\<lambda>(b, f, l). nat (l - f + 1))")
  show "wf (measure (\<lambda>(b, f, l). nat (l - f + 1)))" by simp
next
  fix ip_bits first_int last_int :: int and x xa xb
  assume "first_int \<le> last_int"
    and "xb = first_int + push_bit (nat x) 1"
  moreover have "(0::int) < push_bit (nat x) 1" by (simp add: push_bit_eq_mult)
  ultimately show "((ip_bits, xb, last_int), ip_bits, first_int, last_int)
      \<in> measure (\<lambda>(b, f, l). nat (l - f + 1))"
    by simp
qed

declare summarize_loop.simps [simp del]

text \<open>
  The comparison \<open>first > last\<close>. \<open>_BaseAddress\<close> defines \<open>__lt__\<close> on \<open>_ip\<close> and
  \<open>functools.total_ordering\<close> derives \<open>a > b\<close> as \<open>not a < b and a != b\<close>; equality
  of IPv6 addresses compares the scope id as well.
\<close>

definition addr_lt :: "ip_addr \<Rightarrow> ip_addr \<Rightarrow> bool" where
  "addr_lt a b = (if ip_of a \<noteq> ip_of b then ip_of a < ip_of b else False)"

definition addr_gt :: "ip_addr \<Rightarrow> ip_addr \<Rightarrow> bool" where
  "addr_gt a b \<longleftrightarrow> \<not> addr_lt a b \<and> a \<noteq> b"

text \<open>
  \<open>list(ipaddress.summarize_address_range(first, last))\<close>. Every network the generator
  yields is built by the network constructor, whose failure ends the iteration with a
  \<open>ValueError\<close>.
\<close>

definition summarize_address_range :: "ip_addr \<Rightarrow> ip_addr \<Rightarrow> py_error + ip_net list" where
  "summarize_address_range first_addr last_addr =
     (if version first_addr \<noteq> version last_addr then Inl TypeError
      else if addr_gt first_addr last_addr then Inl ValueError
      else (case those_opt (map (network_from_tuple (version first_addr))
                    (summarize_loop (max_prefixlen (version first_addr))
                       (ip_of first_addr) (ip_of last_addr))) of
              None \<Rightarrow> Inl ValueError
            | Some nets \<Rightarrow> Inr nets))"

subsection \<open>\<open>ip_network\<close> on a string\<close>








section \<open>\<open>convert-ip-data.py\<close>: IP ranges to CIDR rows\<close>

subsection \<open>The country table\<close>

type_synonym country_names = "string \<rightharpoonup> string"

text \<open>
  \<open>load_country_names\<close>, on the rows its \<open>csv.DictReader\<close> yields: each row is the pair
  \<open>(row.get('Code'), row.get('Name'))\<close>.
\<close>

definition load_country_row :: "country_names \<Rightarrow> string option \<times> string option \<Rightarrow> country_names" where
  "load_country_row mapping row =
     (case row of
        (Some code, Some name) \<Rightarrow>
          if code \<noteq> [] \<and> name \<noteq> [] then mapping(upper (strip code) \<mapsto> strip name)
          else mapping
      | _ \<Rightarrow> mapping)"

definition load_country_names :: "(string option \<times> string option) list \<Rightarrow> country_names" where
  "load_country_names rows = foldl load_country_row Map.empty rows"

definition get_country_name :: "country_names \<Rightarrow> string \<Rightarrow> string" where
  "get_country_name COUNTRY_NAMES country_code =
     (case COUNTRY_NAMES (upper country_code) of
        Some name \<Rightarrow> name
      | None \<Rightarrow> country_code)"

subsection \<open>\<open>ip_range_to_cidrs\<close>\<close>

text \<open>
  The \<open>try\<close> block catches \<open>ValueError\<close> (and its subclass \<open>AddressValueError\<close>) and
  returns the empty list; any other exception leaves the function.
\<close>

definition ip_range_to_cidrs :: "string option \<Rightarrow> string option \<Rightarrow> py_error + string list" where
  "ip_range_to_cidrs start_ip end_ip =
     (case ip_address (str_opt start_ip) of
        None \<Rightarrow> Inr []
      | Some start \<Rightarrow>
          (case ip_address (str_opt end_ip) of
             None \<Rightarrow> Inr []
           | Some end \<Rightarrow>
               (case summarize_address_range start end of
                  Inr cidrs \<Rightarrow> Inr (map str_network cidrs)
                | Inl e \<Rightarrow> if e = ValueError then Inr [] else Inl e)))"

subsection \<open>Input rows\<close>

text \<open>
  A row of \<open>csv.DictReader(infile, fieldnames=...)\<close>: a field the line does not have is
  \<open>None\<close> (the reader's \<open>restval\<close>), fields beyond the sixth are not used, and empty lines
  are skipped by the reader.
\<close>

record row =
  ip_start :: "string option"
  ip_end :: "string option"
  continent :: "string option"
  country :: "string option"
  stateprov :: "string option"
  city :: "string option"

definition field :: "string list \<Rightarrow> nat \<Rightarrow> string option" where
  "field line k = (if k < length line then Some (line ! k) else None)"

definition dict_row :: "string list \<Rightarrow> row" where
  "dict_row line =
     \<lparr>ip_start = field line 0, ip_end = field line 1, continent = field line 2,
      country = field line 3, stateprov = field line 4, city = field line 5\<rparr>"

definition DictReader :: "string list list \<Rightarrow> row list" where
  "DictReader lines = map dict_row (filter (\<lambda>line. line \<noteq> []) lines)"

subsection \<open>Output rows and files\<close>

text \<open>\<open>row_data\<close>: the six values written for one CIDR block.\<close>

record row_data =
  network :: string
  continent_code :: string
  country_code :: string
  country_name :: string
  region_name :: "string option"
  city_name :: "string option"

text \<open>
  A CSV file is the list of the rows written to it, each row the list of its cells as
  \<open>csv.writer\<close> renders them (\<open>None\<close> is written as the empty cell); \<open>csv.reader\<close> on
  the file gives these rows back. The input is read in text mode, so no cell holds a
  carriage return.
\<close>

type_synonym csv_row = "string list"

definition cell :: "string option \<Rightarrow> string" where
  "cell x = (case x of None \<Rightarrow> [] | Some s \<Rightarrow> s)"

definition writerow :: "row_data \<Rightarrow> csv_row" where
  "writerow r =
     [network r, continent_code r, country_code r, country_name r,
      cell (region_name r), cell (city_name r)]"

definition header :: csv_row where
  "header = [''network'', ''continent_code'', ''country_code'', ''country_name'',
             ''region_name'', ''city_name'']"

text \<open>\<open>len(str(x)) if x else 0\<close>, and the estimate \<open>row_size\<close>.\<close>

definition len_if :: "string option \<Rightarrow> int" where
  "len_if x = (case x of None \<Rightarrow> 0 | Some s \<Rightarrow> if s = [] then 0 else int (length s))"

definition row_size :: "row_data \<Rightarrow> int" where
  "row_size r =
     len_if (Some (network r)) + len_if (Some (continent_code r)) +
     len_if (Some (country_code r)) + len_if (Some (country_name r)) +
     len_if (region_name r) + len_if (city_name r) + 10"

subsection \<open>\<open>process_csv\<close>\<close>

text \<open>
  The local variables of \<open>process_csv\<close>. The part files: \<open>closed_files\<close> are the files
  already closed, in the order of \<open>csv_files\<close>, and \<open>outfile\<close> is the open one, the last
  path of \<open>csv_files\<close>; \<open>file_count\<close> is the number of the open part.
\<close>

record state =
  row_count :: int
  output_count :: int
  error_count :: int
  file_count :: int
  current_file_size :: int
  closed_files :: "csv_row list list"
  outfile :: "csv_row list"

definition open_new_file :: "int \<Rightarrow> state \<Rightarrow> state" where
  "open_new_file part_num st =
     st\<lparr>outfile := (if part_num = 1 then [header] else []), current_file_size := 0\<rparr>"

definition close_outfile :: "state \<Rightarrow> state" where
  "close_outfile st = st\<lparr>closed_files := closed_files st @ [outfile st]\<rparr>"

text \<open>The body of \<open>for cidr in cidrs\<close> for one row, and the loop.\<close>

definition write_one :: "int \<Rightarrow> row_data \<Rightarrow> state \<Rightarrow> state" where
  "write_one max_size_bytes r st =
     (let st = st\<lparr>outfile := outfile st @ [writerow r]\<rparr>;
          st = st\<lparr>output_count := output_count st + 1\<rparr>;
          st = st\<lparr>current_file_size := current_file_size st + row_size r\<rparr>
      in if current_file_size st \<ge> max_size_bytes then
           (let st = close_outfile st;
                st = st\<lparr>file_count := file_count st + 1\<rparr>
            in open_new_file (file_count st) st)
         else st)"

fun write_cidrs :: "int \<Rightarrow> (string \<Rightarrow> row_data) \<Rightarrow> string list \<Rightarrow> state \<Rightarrow> state" where
  "write_cidrs max_size_bytes mk [] st = st"
| "write_cidrs max_size_bytes mk (cidr # cidrs) st =
     write_cidrs max_size_bytes mk cidrs (write_one max_size_bytes (mk cidr) st)"

text \<open>
  The values taken from one input row. \<open>row.get('country', '')\<close> is \<open>None\<close> when the
  line has fewer than four fields, and \<open>None.upper()\<close> raises \<open>AttributeError\<close>.
\<close>

definition enrich :: "country_names \<Rightarrow> row \<Rightarrow> py_error + (string \<Rightarrow> row_data)" where
  "enrich COUNTRY_NAMES r =
     (let continent_code =
            (case continent r of
               None \<Rightarrow> []
             | Some c \<Rightarrow> if c = [] then [] else take 2 c)
      in case country r of
           None \<Rightarrow> Inl AttributeError
         | Some c \<Rightarrow>
             (let country_code = upper c;
                  country_name =
                    (if country_code \<noteq> [] then get_country_name COUNTRY_NAMES country_code
                     else []);
                  region_name =
                    (case stateprov r of
                       None \<Rightarrow> None
                     | Some s \<Rightarrow> if s = [] then None else Some s);
                  city_name =
                    (case city r of
                       None \<Rightarrow> None
                     | Some s \<Rightarrow> if s = [] then None else Some s)
              in Inr (\<lambda>cidr.
                   \<lparr>network = cidr, continent_code = continent_code,
                    country_code = country_code, country_name = country_name,
                    region_name = region_name, city_name = city_name\<rparr>)))"

text \<open>
  The body of \<open>for row in reader\<close>. An exception leaves the loop: the result is then the
  exception with the state it left behind.
\<close>

definition process_row :: "country_names \<Rightarrow> int \<Rightarrow> row \<Rightarrow> state \<Rightarrow> py_error \<times> state + state" where
  "process_row COUNTRY_NAMES max_size_bytes r st =
     (let st = st\<lparr>row_count := row_count st + 1\<rparr> in
      case ip_range_to_cidrs (ip_start r) (ip_end r) of
        Inl e \<Rightarrow> Inl (e, st)
      | Inr cidrs \<Rightarrow>
          if cidrs = [] then Inr (st\<lparr>error_count := error_count st + 1\<rparr>)
          else (case enrich COUNTRY_NAMES r of
                  Inl e \<Rightarrow> Inl (e, st)
                | Inr mk \<Rightarrow> Inr (write_cidrs max_size_bytes mk cidrs st)))"

fun process_rows :: "country_names \<Rightarrow> int \<Rightarrow> row list \<Rightarrow> state \<Rightarrow> py_error \<times> state + state" where
  "process_rows COUNTRY_NAMES max_size_bytes [] st = Inr st"
| "process_rows COUNTRY_NAMES max_size_bytes (r # rs) st =
     (case process_row COUNTRY_NAMES max_size_bytes r st of
        Inl e \<Rightarrow> Inl e
      | Inr st' \<Rightarrow> process_rows COUNTRY_NAMES max_size_bytes rs st')"

text \<open>The files of \<open>csv_files\<close>, in order, once the open file is closed.\<close>

definition csv_files :: "state \<Rightarrow> csv_row list list" where
  "csv_files st = closed_files st @ [outfile st]"

text \<open>
  The merged file: the header is the first row read from \<open>csv_files[0]\<close>, then the rest
  of that file, then every row of the other files.
\<close>

definition merge_files :: "csv_row list list \<Rightarrow> py_error + csv_row list" where
  "merge_files files =
     (case files of
        [] \<Rightarrow> Inl IndexError
      | part1 # others \<Rightarrow>
          (case part1 of
             [] \<Rightarrow> Inl StopIteration
           | hdr # rest \<Rightarrow> Inr (hdr # rest @ concat others)))"

record result =
  parts :: "csv_row list list"
  merged :: "csv_row list"
  input_rows :: int
  output_rows :: int
  errors :: int

definition initial_state :: state where
  "initial_state =
     open_new_file 1
       \<lparr>row_count = 0, output_count = 0, error_count = 0, file_count = 1,
        current_file_size = 0, closed_files = [], outfile = []\<rparr>"

text \<open>
  \<open>process_csv\<close> on the lines of the input file. When an exception leaves it, the part
  files written so far stay behind and no merged file is made.
\<close>

definition process_csv :: "country_names \<Rightarrow> int \<Rightarrow> string list list \<Rightarrow> py_error \<times> csv_row list list + result" where
  "process_csv COUNTRY_NAMES max_size_mb lines =
     (let max_size_bytes = max_size_mb * 1024 * 1024 in
      case process_rows COUNTRY_NAMES max_size_bytes (DictReader lines) initial_state of
        Inl (e, st) \<Rightarrow> Inl (e, csv_files st)
      | Inr st \<Rightarrow>
          (case merge_files (csv_files st) of
             Inl e \<Rightarrow> Inl (e, csv_files st)
           | Inr m \<Rightarrow>
               Inr \<lparr>parts = csv_files st, merged = m, input_rows = row_count st,
                    output_rows = output_count st, errors = error_count st\<rparr>))"

section \<open>JSON documents\<close>





section \<open>\<open>reset-add-toc.py\<close>\<close>





section \<open>\<open>convert-ips.py\<close>: bot IP ranges to CSV\<close>












section \<open>Notions used to state the properties\<close>

text \<open>The size estimate of a written row, from its cells, and of a list of rows.\<close>

definition est_row :: "csv_row \<Rightarrow> int" where
  "est_row r = sum_list (map (\<lambda>c. int (length c)) r) + 10"

definition est_rows :: "csv_row list \<Rightarrow> int" where
  "est_rows rs = sum_list (map est_row rs)"

text \<open>The data rows of the part files: the first file without its first row.\<close>

definition data_rows :: "csv_row list list \<Rightarrow> csv_row list list" where
  "data_rows files = (case files of [] \<Rightarrow> [] | part1 # others \<Rightarrow> tl part1 # others)"

text \<open>A closed part: it has a data row, its estimate has reached the threshold, and after each
  earlier row the estimate was below the threshold.\<close>

definition closed_ok :: "int \<Rightarrow> csv_row list \<Rightarrow> bool" where
  "closed_ok mx d \<longleftrightarrow>
     d \<noteq> [] \<and> est_rows d \<ge> mx \<and> (\<forall>k. 0 < k \<and> k < length d \<longrightarrow> est_rows (take k d) < mx)"

text \<open>The open part: after each of its rows the estimate was below the threshold.\<close>

definition open_ok :: "int \<Rightarrow> csv_row list \<Rightarrow> bool" where
  "open_ok mx d \<longleftrightarrow> (\<forall>k. 0 < k \<and> k \<le> length d \<longrightarrow> est_rows (take k d) < mx)"

text \<open>The data rows of the open file.\<close>

definition open_data :: "state \<Rightarrow> csv_row list" where
  "open_data st = (if closed_files st = [] then tl (outfile st) else outfile st)"

text \<open>What holds of the state between two rows.\<close>

definition state_inv :: "int \<Rightarrow> state \<Rightarrow> bool" where
  "state_inv mx st \<longleftrightarrow>
     file_count st = 1 + int (length (closed_files st)) \<and>
     (\<exists>ds. hd (csv_files st) = header # ds) \<and>
     (\<forall>d \<in> set (data_rows (closed_files st)). closed_ok mx d) \<and>
     current_file_size st = est_rows (open_data st) \<and>
     open_ok mx (open_data st)"

text \<open>The state a run of the loop ends in, and the part files a call of \<open>process_csv\<close> leaves.\<close>

definition final_state :: "py_error \<times> state + state \<Rightarrow> state" where
  "final_state r = (case r of Inl (e, st) \<Rightarrow> st | Inr st \<Rightarrow> st)"

definition files_of :: "py_error \<times> csv_row list list + result \<Rightarrow> csv_row list list" where
  "files_of r = (case r of Inl (e, fs) \<Rightarrow> fs | Inr res \<Rightarrow> parts res)"

text \<open>The header is the first row and occurs nowhere else.\<close>

definition header_once :: "csv_row list \<Rightarrow> bool" where
  "header_once rows \<longleftrightarrow> (\<exists>ds. rows = header # ds \<and> header \<notin> set ds)"


text \<open>The blocks of \<open>summarize_loop\<close>, as pairs of an address and a prefix length.\<close>

definition nbits_of :: "int \<Rightarrow> int \<Rightarrow> int \<Rightarrow> int" where
  "nbits_of ip_bits first_int last_int =
     min (count_righthand_zero_bits first_int ip_bits)
         (bit_length (last_int - first_int + 1) - 1)"

definition blk_last :: "int \<Rightarrow> int \<times> int \<Rightarrow> int" where
  "blk_last ip_bits n = fst n + 2 ^ nat (ip_bits - snd n) - 1"

definition blk_addrs :: "int \<Rightarrow> int \<times> int \<Rightarrow> int set" where
  "blk_addrs ip_bits n = {fst n .. blk_last ip_bits n}"

definition block_ok :: "int \<Rightarrow> int \<Rightarrow> int \<Rightarrow> int \<times> int \<Rightarrow> bool" where
  "block_ok b f l n \<longleftrightarrow>
     0 \<le> snd n \<and> snd n \<le> b \<and> 2 ^ nat (b - snd n) dvd fst n \<and>
     f \<le> fst n \<and> blk_last b n \<le> l"

section \<open>Lemmas about the partition writer\<close>

lemma len_if_Some: "len_if (Some s) = int (length s)"
  by (simp add: len_if_def)

lemma len_if_cell: "len_if x = int (length (cell x))"
  by (simp add: len_if_def cell_def split: option.splits)

lemma row_size_est: "row_size r = est_row (writerow r)"
  by (simp add: row_size_def est_row_def writerow_def len_if_Some)
    (simp add: len_if_cell)

lemma est_row_pos: "0 < est_row r"
proof -
  have "0 \<le> sum_list (map (\<lambda>c. int (length c)) r)"
    by (rule sum_list_nonneg) auto
  then show ?thesis by (simp add: est_row_def)
qed

lemma est_rows_append: "est_rows (xs @ ys) = est_rows xs + est_rows ys"
  by (simp add: est_rows_def)

lemma est_rows_nonneg: "0 \<le> est_rows xs"
  unfolding est_rows_def
  by (rule sum_list_nonneg) (auto intro: less_imp_le est_row_pos)

lemma write_one_cases:
  "write_one mx r st =
     (if current_file_size st + row_size r \<ge> mx then
        st\<lparr>outfile := (if file_count st + 1 = 1 then [header] else []),
            output_count := output_count st + 1,
            current_file_size := 0,
            closed_files := closed_files st @ [outfile st @ [writerow r]],
            file_count := file_count st + 1\<rparr>
      else
        st\<lparr>outfile := outfile st @ [writerow r],
            output_count := output_count st + 1,
            current_file_size := current_file_size st + row_size r\<rparr>)"
  by (simp add: write_one_def Let_def open_new_file_def close_outfile_def)

lemma data_rows_csv_files:
  "data_rows (csv_files st) = data_rows (closed_files st) @ [open_data st]"
  by (cases "closed_files st") (simp_all add: data_rows_def csv_files_def open_data_def)

lemma data_rows_snoc:
  "fs \<noteq> [] \<Longrightarrow> data_rows (fs @ [f]) = data_rows fs @ [f]"
  by (cases fs) (simp_all add: data_rows_def)

lemma state_inv_initial: "state_inv mx initial_state"
  by (simp add: state_inv_def initial_state_def open_new_file_def csv_files_def
      data_rows_def open_data_def est_rows_def open_ok_def)

lemma open_ok_snoc_closed:
  assumes "open_ok mx d" "mx \<le> est_rows d + est_row r"
  shows "closed_ok mx (d @ [r])"
  using assms by (auto simp: closed_ok_def open_ok_def est_rows_append est_rows_def)

lemma open_ok_snoc_open:
  assumes "open_ok mx d" "est_rows d + est_row r < mx"
  shows "open_ok mx (d @ [r])"
  unfolding open_ok_def
proof (intro allI impI)
  fix k assume k: "0 < k \<and> k \<le> length (d @ [r])"
  show "est_rows (take k (d @ [r])) < mx"
  proof (cases "k \<le> length d")
    case True
    with k assms(1) show ?thesis by (simp add: open_ok_def)
  next
    case False
    with k have "take k (d @ [r]) = d @ [r]" by simp
    with assms(2) show ?thesis by (simp add: est_rows_append est_rows_def)
  qed
qed

lemma write_one_inv:
  assumes "state_inv mx st"
  shows "state_inv mx (write_one mx r st)"
proof -
  from assms obtain ds where
    fc: "file_count st = 1 + int (length (closed_files st))" and
    hd: "hd (csv_files st) = header # ds" and
    cl: "\<forall>d \<in> set (data_rows (closed_files st)). closed_ok mx d" and
    sz: "current_file_size st = est_rows (open_data st)" and
    op: "open_ok mx (open_data st)"
    by (auto simp: state_inv_def)
  have fc1: "file_count st + 1 \<noteq> 1" using fc by simp
  have od: "open_data (st\<lparr>outfile := outfile st @ [x]\<rparr>) = open_data st @ [x]"
    if "closed_files st = [] \<longrightarrow> outfile st \<noteq> []" for x
    using that by (auto simp: open_data_def)
  have ne: "closed_files st = [] \<longrightarrow> outfile st \<noteq> []"
    using hd by (auto simp: csv_files_def)
  show ?thesis
  proof (cases "current_file_size st + row_size r \<ge> mx")
    case True
    let ?st' = "write_one mx r st"
    have st': "closed_files ?st' = closed_files st @ [outfile st @ [writerow r]]"
      "outfile ?st' = []" "file_count ?st' = file_count st + 1"
      "current_file_size ?st' = 0"
      using True fc1 by (simp_all add: write_one_cases)
    have dr: "data_rows (closed_files ?st') = data_rows (closed_files st) @ [open_data st @ [writerow r]]"
    proof (cases "closed_files st = []")
      case True
      with ne show ?thesis unfolding st' by (simp add: data_rows_def open_data_def)
    next
      case False
      then show ?thesis unfolding st' by (simp add: data_rows_snoc open_data_def)
    qed
    have "closed_ok mx (open_data st @ [writerow r])"
      using open_ok_snoc_closed[OF op] True sz by (simp add: row_size_est)
    moreover have "hd (csv_files ?st') = header # ds \<or> (\<exists>ds'. hd (csv_files ?st') = header # ds')"
      using hd ne unfolding csv_files_def st' by (cases "closed_files st") auto
    ultimately show ?thesis
      unfolding state_inv_def dr using cl fc
      by (auto simp: st' open_data_def est_rows_def open_ok_def)
  next
    case False
    let ?st' = "write_one mx r st"
    have st': "closed_files ?st' = closed_files st"
      "outfile ?st' = outfile st @ [writerow r]" "file_count ?st' = file_count st"
      "current_file_size ?st' = current_file_size st + row_size r"
      using False by (simp_all add: write_one_cases)
    have od': "open_data ?st' = open_data st @ [writerow r]"
      using ne by (auto simp: open_data_def st')
    have "open_ok mx (open_data st @ [writerow r])"
      using open_ok_snoc_open[OF op] False sz by (simp add: row_size_est)
    moreover have "\<exists>ds'. hd (csv_files ?st') = header # ds'"
      using hd ne unfolding csv_files_def st' by (cases "closed_files st") auto
    ultimately show ?thesis
      unfolding state_inv_def od' using cl fc sz
      by (simp add: st' est_rows_append est_rows_def row_size_est)
  qed
qed

lemma write_one_rows:
  assumes "0 < file_count st"
  shows "concat (csv_files (write_one mx r st)) = concat (csv_files st) @ [writerow r]"
  using assms by (simp add: write_one_cases csv_files_def)

lemma write_one_counts:
  "row_count (write_one mx r st) = row_count st"
  "error_count (write_one mx r st) = error_count st"
  "output_count (write_one mx r st) = output_count st + 1"
  by (simp_all add: write_one_cases)

lemma state_inv_file_count: "state_inv mx st \<Longrightarrow> 0 < file_count st"
  by (simp add: state_inv_def)

lemma write_cidrs_inv:
  "state_inv mx st \<Longrightarrow> state_inv mx (write_cidrs mx mk cidrs st)"
  by (induction cidrs arbitrary: st) (simp_all add: write_one_inv)

lemma write_cidrs_rows:
  "state_inv mx st \<Longrightarrow>
   concat (csv_files (write_cidrs mx mk cidrs st)) =
     concat (csv_files st) @ map (\<lambda>c. writerow (mk c)) cidrs"
proof (induction cidrs arbitrary: st)
  case Nil
  then show ?case by simp
next
  case (Cons c cidrs)
  from Cons.prems have "state_inv mx (write_one mx (mk c) st)" by (rule write_one_inv)
  from Cons.IH[OF this] show ?case
    using write_one_rows[OF state_inv_file_count[OF Cons.prems], of mx "mk c"] by simp
qed

lemma write_cidrs_counts:
  "row_count (write_cidrs mx mk cidrs st) = row_count st"
  "error_count (write_cidrs mx mk cidrs st) = error_count st"
  "output_count (write_cidrs mx mk cidrs st) = output_count st + int (length cidrs)"
  by (induction cidrs arbitrary: st) (simp_all add: write_one_counts)

lemma state_inv_row_count [simp]:
  "state_inv mx (st\<lparr>row_count := n\<rparr>) = state_inv mx st"
  by (simp add: state_inv_def csv_files_def open_data_def)

lemma state_inv_error_count [simp]:
  "state_inv mx (st\<lparr>error_count := n\<rparr>) = state_inv mx st"
  by (simp add: state_inv_def csv_files_def open_data_def)

lemma csv_files_row_count [simp]: "csv_files (st\<lparr>row_count := n\<rparr>) = csv_files st"
  by (simp add: csv_files_def)

lemma csv_files_error_count [simp]: "csv_files (st\<lparr>error_count := n\<rparr>) = csv_files st"
  by (simp add: csv_files_def)

lemma str_network_slash: "CHR ''/'' \<in> set (str_network n)"
  by (cases n) simp

lemma ip_range_to_cidrs_slash:
  assumes "ip_range_to_cidrs s e = Inr cidrs" "c \<in> set cidrs"
  shows "CHR ''/'' \<in> set c"
  using assms
  by (auto simp: ip_range_to_cidrs_def str_network_slash split: option.splits sum.splits if_splits)

lemma writerow_not_header:
  "CHR ''/'' \<in> set (network r) \<Longrightarrow> writerow r \<noteq> header"
  by (auto simp: writerow_def header_def)

lemma enrich_network: "enrich tbl r = Inr mk \<Longrightarrow> network (mk c) = c"
  by (auto simp: enrich_def Let_def split: option.splits)

lemma process_row_inv:
  assumes "state_inv mx st"
  shows "state_inv mx (final_state (process_row tbl mx r st))"
  using assms
  by (auto simp: process_row_def final_state_def Let_def write_cidrs_inv
      split: sum.splits option.splits)

lemma process_row_header_once:
  assumes "state_inv mx st" "header_once (concat (csv_files st))"
  shows "header_once (concat (csv_files (final_state (process_row tbl mx r st))))"
proof (cases "ip_range_to_cidrs (ip_start r) (ip_end r)")
  case (Inl e)
  then show ?thesis using assms(2) by (simp add: process_row_def final_state_def Let_def)
next
  case (Inr cidrs)
  show ?thesis
  proof (cases "enrich tbl r")
    case (Inl e)
    then show ?thesis using assms(2) Inr
      by (simp add: process_row_def final_state_def Let_def)
  next
    case mk: (Inr mk)
    have "writerow (mk c) \<noteq> header" if "c \<in> set cidrs" for c
      using ip_range_to_cidrs_slash[OF Inr that] enrich_network[OF mk]
      by (simp add: writerow_not_header)
    then have "header \<notin> set (map (\<lambda>c. writerow (mk c)) cidrs)" by fastforce
    moreover have "concat (csv_files (write_cidrs mx mk cidrs (st\<lparr>row_count := row_count st + 1\<rparr>)))
        = concat (csv_files st) @ map (\<lambda>c. writerow (mk c)) cidrs"
      using write_cidrs_rows[of mx "st\<lparr>row_count := row_count st + 1\<rparr>" mk cidrs] assms(1)
      by simp
    ultimately show ?thesis using assms(2) Inr mk
      by (auto simp: process_row_def final_state_def Let_def header_once_def)
  qed
qed

lemma process_rows_final:
  "final_state (process_rows tbl mx (r # rs) st) =
     (case process_row tbl mx r st of
        Inl (e, st') \<Rightarrow> st'
      | Inr st' \<Rightarrow> final_state (process_rows tbl mx rs st'))"
  by (auto simp: final_state_def split: sum.splits)

lemma process_rows_inv:
  assumes "state_inv mx st" "header_once (concat (csv_files st))"
  shows "state_inv mx (final_state (process_rows tbl mx rs st)) \<and>
         header_once (concat (csv_files (final_state (process_rows tbl mx rs st))))"
  using assms
proof (induction rs arbitrary: st)
  case Nil
  then show ?case by (simp add: final_state_def)
next
  case (Cons r rs)
  note i = process_row_inv[OF Cons.prems(1), of tbl r]
    process_row_header_once[OF Cons.prems, of tbl r]
  show ?case
  proof (cases "process_row tbl mx r st")
    case (Inl a)
    then show ?thesis using i by (cases a) (simp add: final_state_def)
  next
    case (Inr st')
    with i have "state_inv mx st'" "header_once (concat (csv_files st'))"
      by (simp_all add: final_state_def)
    from Cons.IH[OF this] show ?thesis using Inr by (simp add: final_state_def)
  qed
qed

lemma initial_header_once: "header_once (concat (csv_files initial_state))"
  by (simp add: header_once_def initial_state_def open_new_file_def csv_files_def)

lemma files_of_process_csv:
  "files_of (process_csv tbl mb lines) =
     csv_files (final_state (process_rows tbl (mb * 1024 * 1024) (DictReader lines) initial_state))"
  by (auto simp: process_csv_def files_of_def final_state_def Let_def split: sum.splits)

lemma concat_data_rows:
  "hd files = h # ds \<Longrightarrow> files \<noteq> [] \<Longrightarrow> concat files = h # concat (data_rows files)"
  by (cases files) (simp_all add: data_rows_def)

lemma merge_files_ok:
  "hd files = h # ds \<Longrightarrow> files \<noteq> [] \<Longrightarrow> merge_files files = Inr (concat files)"
  by (cases files) (simp_all add: merge_files_def)

lemma csv_files_nonempty: "csv_files st \<noteq> []"
  by (simp add: csv_files_def)

section \<open>Lemmas about files that stay closed\<close>




section \<open>Evaluated examples and a one-line run\<close>

lemma cidrs_5_9:
  "ip_range_to_cidrs (Some ''1.0.0.5'') (Some ''1.0.0.9'') =
     Inr [''1.0.0.5/32'', ''1.0.0.6/31'', ''1.0.0.8/31'']"
  by code_simp

lemma cidrs_mixed: "ip_range_to_cidrs (Some ''1.0.0.0'') (Some ''::1'') = Inl TypeError"
  by code_simp

lemma summarize_5_9:
  "summarize_address_range (IPv4Address 16777221) (IPv4Address 16777225) =
     Inr [IPNetwork 4 16777221 32, IPNetwork 4 16777222 31, IPNetwork 4 16777224 31]"
  by code_simp

lemma parse_5_9:
  "ip_address ''1.0.0.5'' = Some (IPv4Address 16777221)"
  "ip_address ''1.0.0.9'' = Some (IPv4Address 16777225)"
  by code_simp+

lemma addrs_5_9:
  "net_addrs (IPNetwork 4 16777221 32) \<union> net_addrs (IPNetwork 4 16777222 31) \<union>
   net_addrs (IPNetwork 4 16777224 31) = {16777221 .. 16777225}"
  by (auto simp: net_addrs_def net_last_def)

lemma process_csv_single:
  assumes cs: "ip_range_to_cidrs (field line 0) (field line 1) = Inr cidrs" "cidrs \<noteq> []"
    and mk: "enrich tbl (dict_row line) = Inr mk"
    and ne: "line \<noteq> []"
  shows "\<exists>res. process_csv tbl mb [line] = Inr res \<and>
           merged res = header # map (\<lambda>c. writerow (mk c)) cidrs"
proof -
  define mx where "mx = mb * 1024 * 1024"
  define st0 where "st0 = initial_state\<lparr>row_count := row_count initial_state + 1\<rparr>"
  define st where "st = write_cidrs mx mk cidrs st0"
  have pr: "process_rows tbl mx (DictReader [line]) initial_state = Inr st"
    using cs mk ne
    by (simp add: DictReader_def process_row_def Let_def dict_row_def st_def st0_def)
  have inv0: "state_inv mx st0" unfolding st0_def by (simp add: state_inv_initial)
  have inv: "state_inv mx st" unfolding st_def by (rule write_cidrs_inv[OF inv0])
  then obtain ds where ds: "hd (csv_files st) = header # ds" by (auto simp: state_inv_def)
  have "concat (csv_files st0) = [header]"
    by (simp add: st0_def initial_state_def open_new_file_def csv_files_def)
  then have rows: "concat (csv_files st) = header # map (\<lambda>c. writerow (mk c)) cidrs"
    unfolding st_def using write_cidrs_rows[OF inv0, of mk cidrs] by simp
  have mg: "merge_files (csv_files st) = Inr (concat (csv_files st))"
    using ds csv_files_nonempty by (rule merge_files_ok)
  show ?thesis
    unfolding process_csv_def Let_def mx_def[symmetric] pr using mg rows by simp
qed

section \<open>Lemmas about a whole run\<close>

lemma final_files_inv:
  "state_inv mx (final_state (process_rows tbl mx rows initial_state)) \<and>
   header_once (concat (csv_files (final_state (process_rows tbl mx rows initial_state))))"
  by (rule process_rows_inv[OF state_inv_initial initial_header_once])

lemma data_rows_nonempty: "files \<noteq> [] \<Longrightarrow> data_rows files \<noteq> []"
  by (cases files) (simp_all add: data_rows_def)

lemma upper_chars_idem: "concat (map upper_chars (upper_chars c)) = upper_chars c"
proof -
  let ?n = "of_char c :: nat"
  have lt: "?n < 256" by simp
  consider (low) "(97 \<le> ?n \<and> ?n \<le> 122) \<or> (224 \<le> ?n \<and> ?n \<le> 246) \<or> (248 \<le> ?n \<and> ?n \<le> 254)"
    | (ss) "?n = 223" | (other) "\<not> ((97 \<le> ?n \<and> ?n \<le> 122) \<or> (224 \<le> ?n \<and> ?n \<le> 246) \<or>
        (248 \<le> ?n \<and> ?n \<le> 254)) \<and> ?n \<noteq> 223"
    by blast
  then show ?thesis
  proof cases
    case low
    then have m: "(?n - 32) mod 256 = ?n - 32" by (intro mod_less) linarith
    from low have u: "upper_chars c = [char_of (?n - 32)]" by (simp add: upper_chars_def Let_def)
    have "upper_chars (char_of (?n - 32)) = [char_of (?n - 32)]"
      using low by (auto simp: upper_chars_def Let_def m)
    with u show ?thesis by simp
  next
    case ss
    then have u: "upper_chars c = ''SS''" by (simp add: upper_chars_def Let_def)
    have "upper_chars CHR ''S'' = ''S''" by (simp add: upper_chars_def Let_def)
    with u show ?thesis by simp
  next
    case other
    then have "upper_chars c = [c]" by (auto simp: upper_chars_def Let_def)
    then show ?thesis by simp
  qed
qed

lemma upper_append: "upper (xs @ ys) = upper xs @ upper ys"
  by (simp add: upper_def)

lemma upper_idem: "upper (upper s) = upper s"
proof (induction s)
  case Nil
  show ?case by (simp add: upper_def)
next
  case (Cons c s)
  have "upper (c # s) = upper_chars c @ upper s" by (simp add: upper_def)
  then have "upper (upper (c # s)) = upper (upper_chars c) @ upper (upper s)"
    by (simp add: upper_append)
  also have "upper (upper_chars c) = upper_chars c"
    using upper_chars_idem[of c] by (simp add: upper_def)
  finally show ?case using Cons.IH by (simp add: upper_def)
qed

text \<open>Ranges that the \<open>try\<close> block turns into the empty list, and what the loop does with them.\<close>

lemma invalid_address_no_blocks:
  "ip_address (str_opt start_ip) = None \<or> ip_address (str_opt end_ip) = None \<Longrightarrow>
   ip_range_to_cidrs start_ip end_ip = Inr []"
  by (auto simp: ip_range_to_cidrs_def split: option.splits)

lemma reversed_range_no_blocks:
  assumes "ip_address (str_opt start_ip) = Some a" "ip_address (str_opt end_ip) = Some b"
    and "version a = version b" "ip_of b < ip_of a"
  shows "ip_range_to_cidrs start_ip end_ip = Inr []"
proof -
  from assms(4) have "addr_gt a b" by (auto simp: addr_gt_def addr_lt_def)
  with assms(1-3) show ?thesis
    by (simp add: ip_range_to_cidrs_def summarize_address_range_def)
qed

lemma no_blocks_discarded:
  assumes "ip_range_to_cidrs (ip_start r) (ip_end r) = Inr []"
  shows "process_row tbl mx r st =
           Inr (st\<lparr>row_count := row_count st + 1, error_count := error_count st + 1\<rparr>)"
    and "csv_files (st\<lparr>row_count := row_count st + 1, error_count := error_count st + 1\<rparr>) =
           csv_files st"
  using assms by (simp_all add: process_row_def Let_def)

section \<open>Lemmas about the two JSON scripts\<close>









section \<open>Lemmas about \<open>summarize_address_range\<close>\<close>

lemma low_mask_even:
  fixes m :: int
  shows "NOT (2 * m) AND (2 * m - 1) = 1 + 2 * (NOT m AND (m - 1))"
proof -
  have a: "NOT (2 * m) div 2 = NOT m" by (simp add: not_int_def)
  have b: "(2 * m - 1) div 2 = m - 1" by simp
  have c: "odd (NOT (2 * m))" by simp
  have d: "odd (2 * m - 1)" by simp
  show ?thesis
    by (subst and_int_rec) (simp only: a b c d, simp)
qed

lemma low_mask_odd:
  fixes m :: int
  shows "NOT (2 * m + 1) AND (2 * m) = 0"
proof -
  have a: "NOT (2 * m + 1) = 2 * NOT m" by (simp add: not_int_def)
  show ?thesis unfolding a
    by (rule bit_eqI) (auto simp: bit_simps)
qed

lemma bitlen_mask: "bitlen (2 ^ k - 1) = int k"
proof (induction k)
  case 0 show ?case by simp
next
  case (Suc k)
  have "bitlen (2 ^ Suc k - 1) = bitlen ((2 ^ Suc k - 1) div 2) + 1"
  proof -
    have "(1::int) \<le> 2 ^ k" by simp
    then have "(0::int) < 2 ^ Suc k - 1" unfolding power_Suc by linarith
    then show ?thesis by (subst compute_bitlen) simp
  qed
  also have "((2::int) ^ Suc k - 1) div 2 = 2 ^ k - 1" by simp
  finally show ?case using Suc by simp
qed

lemma low_mask_pow:
  fixes n :: int
  assumes "0 < n"
  shows "\<exists>k. NOT n AND (n - 1) = 2 ^ k - 1 \<and> 2 ^ k dvd n"
  using assms
proof (induction "nat n" arbitrary: n rule: less_induct)
  case less
  show ?case
  proof (cases "even n")
    case True
    then obtain m where m: "n = 2 * m" by (auto elim: evenE)
    with less.prems have "0 < m" by simp
    moreover from m \<open>0 < m\<close> have "nat m < nat n" by simp
    ultimately obtain k where k: "NOT m AND (m - 1) = 2 ^ k - 1" "2 ^ k dvd m"
      using less.hyps by blast
    have "NOT n AND (n - 1) = 2 ^ Suc k - 1"
      unfolding m low_mask_even k by simp
    moreover have "2 ^ Suc k dvd n" using k(2) m by simp
    ultimately show ?thesis by blast
  next
    case False
    then obtain m where m: "n = 2 * m + 1" by (auto elim: oddE)
    have "NOT n AND (n - 1) = 2 ^ 0 - 1" unfolding m using low_mask_odd[of m] by simp
    moreover have "2 ^ 0 dvd n" by simp
    ultimately show ?thesis by blast
  qed
qed

lemma bit_length_nonneg: "0 \<le> bit_length n"
  by (simp add: bit_length_def bitlen_nonneg)

lemma bit_length_lower: "1 \<le> n \<Longrightarrow> 2 ^ nat (bit_length n - 1) \<le> n"
  using bitlen_bounds[of n] by (simp add: bit_length_def)

lemma bit_length_pos: "1 \<le> n \<Longrightarrow> 1 \<le> bit_length n"
  using bitlen_eq_zero_iff[of n] bitlen_nonneg[of n] by (simp add: bit_length_def)

lemma crzb_nonneg: "0 \<le> bits \<Longrightarrow> 0 \<le> count_righthand_zero_bits n bits"
  by (simp add: count_righthand_zero_bits_def bit_length_nonneg)

lemma crzb_le: "count_righthand_zero_bits n bits \<le> bits"
  by (simp add: count_righthand_zero_bits_def)

lemma crzb_dvd:
  assumes "0 \<le> n" "k \<le> count_righthand_zero_bits n bits"
  shows "2 ^ nat k dvd n"
proof (cases "n = 0")
  case True then show ?thesis by simp
next
  case False
  with assms(1) have "0 < n" by simp
  then obtain j where j: "NOT n AND (n - 1) = 2 ^ j - 1" "2 ^ j dvd n"
    using low_mask_pow by blast
  have "bit_length (NOT n AND (n - 1)) = int j"
    unfolding j(1) bit_length_def by (simp add: bitlen_mask)
  with assms(2) False have "k \<le> int j"
    by (simp add: count_righthand_zero_bits_def)
  then have "nat k \<le> j" by simp
  then have "(2::int) ^ nat k dvd 2 ^ j" by (rule le_imp_power_dvd)
  then show ?thesis using j(2) by (rule dvd_trans)
qed

lemma summarize_loop_unfold:
  "summarize_loop b f l =
     (if f \<le> l then
        (f, b - nbits_of b f l) #
          (if f + 2 ^ nat (nbits_of b f l) - 1 = 2 ^ nat b - 1 then []
           else summarize_loop b (f + 2 ^ nat (nbits_of b f l)) l)
      else [])"
  by (subst summarize_loop.simps) (simp add: Let_def nbits_of_def push_bit_eq_mult)

lemma nbits_of_props:
  assumes "0 \<le> b" "0 \<le> f" "f \<le> l"
  shows "0 \<le> nbits_of b f l" "nbits_of b f l \<le> b"
    "2 ^ nat (nbits_of b f l) dvd f"
    "f + 2 ^ nat (nbits_of b f l) - 1 \<le> l"
proof -
  let ?n = "nbits_of b f l"
  have one: "1 \<le> l - f + 1" using assms by simp
  show "0 \<le> ?n"
    using crzb_nonneg[OF assms(1), of f] bit_length_pos[OF one]
    by (simp add: nbits_of_def)
  show "?n \<le> b" using crzb_le[of f b] by (simp add: nbits_of_def)
  show "2 ^ nat ?n dvd f"
    by (rule crzb_dvd[OF assms(2), where bits = b]) (simp add: nbits_of_def)
  have "?n \<le> bit_length (l - f + 1) - 1" by (simp add: nbits_of_def)
  then have "nat ?n \<le> nat (bit_length (l - f + 1) - 1)" by simp
  then have "(2::int) ^ nat ?n \<le> 2 ^ nat (bit_length (l - f + 1) - 1)"
    by (simp add: power_increasing)
  also have "\<dots> \<le> l - f + 1" by (rule bit_length_lower[OF one])
  finally show "f + 2 ^ nat ?n - 1 \<le> l" by simp
qed

lemma ivl_split: "0 < (s::int) \<Longrightarrow> f + s \<le> l \<Longrightarrow> {f..f + s - 1} \<union> {f + s..l} = {f..l}"
  by auto

lemma summarize_loop_inv:
  assumes "0 \<le> b" "0 \<le> f" "f \<le> l" "l < 2 ^ nat b"
  shows "summarize_loop b f l \<noteq> [] \<and>
         (\<Union>n \<in> set (summarize_loop b f l). blk_addrs b n) = {f..l} \<and>
         sorted_wrt (\<lambda>n m. blk_last b n < fst m) (summarize_loop b f l) \<and>
         (\<forall>n \<in> set (summarize_loop b f l). block_ok b f l n)"
  using assms(2,3)
proof (induction "nat (l - f + 1)" arbitrary: f rule: less_induct)
  case less
  let ?n = "nbits_of b f l"
  let ?f' = "f + 2 ^ nat ?n"
  note p = nbits_of_props[OF assms(1) less.prems]
  have pos: "(0::int) < 2 ^ nat ?n" by simp
  have net: "blk_last b (f, b - ?n) = ?f' - 1" "blk_addrs b (f, b - ?n) = {f..?f' - 1}"
    by (simp_all add: blk_addrs_def blk_last_def)
  have ok: "block_ok b f l (f, b - ?n)"
    using p by (simp add: block_ok_def blk_last_def)
  show ?case
  proof (cases "?f' - 1 = 2 ^ nat b - 1 \<or> l < ?f'")
    case True
    then have last: "?f' - 1 = l" using p(4) assms(4) by auto
    have E: "summarize_loop b ?f' l = []" if "l < ?f'"
      using that by (subst summarize_loop_unfold) simp
    have S: "summarize_loop b f l = [(f, b - ?n)]"
      using True less.prems(2) E
      by (subst summarize_loop_unfold) auto
    show ?thesis unfolding S using ok last net by simp
  next
    case False
    then have le': "?f' \<le> l" and nb: "?f' - 1 \<noteq> 2 ^ nat b - 1" by auto
    have S: "summarize_loop b f l = (f, b - ?n) # summarize_loop b ?f' l"
      using nb less.prems(2) by (subst summarize_loop_unfold) auto
    have "nat (l - ?f' + 1) < nat (l - f + 1)" using pos le' by linarith
    moreover have "0 \<le> ?f'" using less.prems(1) pos by linarith
    ultimately have IH:
      "(\<Union>n \<in> set (summarize_loop b ?f' l). blk_addrs b n) = {?f'..l}"
      "sorted_wrt (\<lambda>n m. blk_last b n < fst m) (summarize_loop b ?f' l)"
      "\<forall>n \<in> set (summarize_loop b ?f' l). block_ok b ?f' l n"
      using less.hyps[of ?f'] le' by auto
    have mono: "block_ok b f l n" if "block_ok b ?f' l n" for n
    proof -
      from that have "?f' \<le> fst n" by (simp add: block_ok_def)
      with pos have "f \<le> fst n" by linarith
      with that show ?thesis by (simp add: block_ok_def)
    qed
    have "{f..?f' - 1} \<union> {?f'..l} = {f..l}" by (rule ivl_split[OF pos le'])
    then have U: "(\<Union>n \<in> set (summarize_loop b f l). blk_addrs b n) = {f..l}"
      unfolding S using IH(1) net(2) by simp
    have srt: "sorted_wrt (\<lambda>n m. blk_last b n < fst m) (summarize_loop b f l)"
      unfolding S using IH(2,3) net(1) by (auto simp: block_ok_def)
    have all: "\<forall>n \<in> set (summarize_loop b f l). block_ok b f l n"
      unfolding S using IH(3) ok mono by auto
    show ?thesis using U srt all S by simp
  qed
qed

section \<open>The blocks are networks\<close>

lemma bit_bounded:
  fixes a :: int
  assumes "0 \<le> a" "a < 2 ^ n" "bit a i"
  shows "i < n"
proof (rule ccontr)
  assume "\<not> i < n"
  then have "n \<le> i" by simp
  from assms(1,2) have "take_bit n a = a" by (simp add: take_bit_int_eq_self)
  then have "bit a i = bit (take_bit n a) i" by simp
  also have "\<dots> = (i < n \<and> bit a i)" by (simp add: bit_take_bit_iff)
  finally show False using assms(3) \<open>\<not> i < n\<close> by simp
qed

lemma bit_of_multiple:
  fixes a :: int
  assumes "2 ^ k dvd a" "bit a i"
  shows "k \<le> i"
proof -
  from assms(1) obtain c where "a = 2 ^ k * c" by (auto elim: dvdE)
  then have "a = push_bit k c" by (simp add: push_bit_eq_mult)
  with assms(2) show ?thesis by (simp add: bit_push_bit_iff)
qed

lemma no_host_bits:
  fixes a :: int
  assumes "0 \<le> a" "a < 2 ^ n" "p \<le> n" "2 ^ (n - p) dvd a"
  shows "a AND ((2 ^ n - 1) XOR drop_bit p (2 ^ n - 1)) = a"
proof (rule bit_eqI)
  fix i
  have m: "(2::int) ^ n - 1 = mask n" by (simp add: mask_eq_exp_minus_1)
  show "bit (a AND ((2 ^ n - 1) XOR drop_bit p (2 ^ n - 1))) i = bit a i"
  proof (cases "bit a i")
    case False
    then show ?thesis by (simp add: bit_and_iff)
  next
    case True
    from bit_bounded[OF assms(1,2) True] have i: "i < n" .
    from bit_of_multiple[OF assms(4) True] have "n - p \<le> i" .
    with assms(3) have "\<not> i + p < n" by linarith
    with i True show ?thesis
      unfolding m by (simp add: bit_and_iff bit_xor_iff bit_drop_bit_eq bit_mask_iff add.commute)
  qed
qed

lemma max_prefixlen_nonneg: "0 \<le> max_prefixlen v"
  by simp

lemma network_from_tuple_ok:
  assumes "block_ok (max_prefixlen v) f l n" "0 \<le> f" "l < 2 ^ nat (max_prefixlen v)"
  shows "network_from_tuple v n = Some (IPNetwork v (fst n) (snd n))"
proof -
  let ?b = "max_prefixlen v"
  obtain a p where n: "n = (a, p)" by (cases n)
  from assms(1) n have p: "0 \<le> p" "p \<le> ?b" and dv: "2 ^ nat (?b - p) dvd a"
    and lo: "f \<le> a" and hi: "blk_last ?b (a, p) \<le> l"
    by (simp_all add: block_ok_def)
  have a0: "0 \<le> a" using lo assms(2) by simp
  have "a \<le> blk_last ?b (a, p)" by (simp add: blk_last_def)
  with hi assms(3) have a1: "a < 2 ^ nat ?b" by linarith
  have e: "nat (?b - p) = nat ?b - nat p" using p by simp
  have "a AND ((2 ^ nat ?b - 1) XOR drop_bit (nat p) (2 ^ nat ?b - 1)) = a"
    by (rule no_host_bits[OF a0 a1]) (use p dv e in simp_all)
  then show ?thesis
    unfolding n using a0 a1 p
    by (simp add: network_from_tuple_def ALL_ONES_def ip_int_from_prefix_def del: max_prefixlen.simps)
qed

lemma those_opt_map_Some:
  "(\<And>x. x \<in> set xs \<Longrightarrow> f x = Some (g x)) \<Longrightarrow> those_opt (map f xs) = Some (map g xs)"
  by (induction xs) simp_all

lemma summarize_nets:
  assumes "0 \<le> f" "f \<le> l" "l < 2 ^ nat (max_prefixlen v)"
  shows "those_opt (map (network_from_tuple v) (summarize_loop (max_prefixlen v) f l)) =
           Some (map (\<lambda>n. IPNetwork v (fst n) (snd n)) (summarize_loop (max_prefixlen v) f l))"
proof (rule those_opt_map_Some)
  fix n assume "n \<in> set (summarize_loop (max_prefixlen v) f l)"
  with summarize_loop_inv[OF max_prefixlen_nonneg assms]
  have "block_ok (max_prefixlen v) f l n" by blast
  from network_from_tuple_ok[OF this assms(1,3)]
  show "network_from_tuple v n = Some (IPNetwork v (fst n) (snd n))" .
qed

section \<open>Parsed addresses are in range\<close>

lemma digit_val_dec: "is_ascii_digit c \<Longrightarrow> 0 \<le> digit_val c \<and> digit_val c \<le> 9"
  by (auto simp: is_ascii_digit_def digit_val_def)

lemma digit_val_hex: "is_hex_digit c \<Longrightarrow> 0 \<le> digit_val c \<and> digit_val c \<le> 15"
  by (auto simp: is_hex_digit_def digit_val_def)

lemma foldl_digits_bound:
  fixes base :: int
  assumes "0 < base" "\<forall>c \<in> set s. 0 \<le> digit_val c \<and> digit_val c \<le> base - 1" "0 \<le> a"
  shows "0 \<le> foldl (\<lambda>a c. a * base + digit_val c) a s \<and>
         foldl (\<lambda>a c. a * base + digit_val c) a s < (a + 1) * base ^ length s"
  using assms(2,3)
proof (induction s arbitrary: a)
  case Nil
  then show ?case by simp
next
  case (Cons c s)
  let ?a = "a * base + digit_val c"
  from Cons.prems assms(1) have a0: "0 \<le> ?a" by simp
  from Cons.prems have "\<forall>c \<in> set s. 0 \<le> digit_val c \<and> digit_val c \<le> base - 1" by simp
  from Cons.IH[OF this a0]
  have IH: "0 \<le> foldl (\<lambda>a c. a * base + digit_val c) ?a s"
    "foldl (\<lambda>a c. a * base + digit_val c) ?a s < (?a + 1) * base ^ length s" by simp_all
  from Cons.prems have "?a + 1 \<le> (a + 1) * base" by (simp add: algebra_simps)
  moreover have "0 \<le> base ^ length s" using assms(1) by simp
  ultimately have "(?a + 1) * base ^ length s \<le> (a + 1) * base * base ^ length s"
    by (rule mult_right_mono)
  with IH(2) have "foldl (\<lambda>a c. a * base + digit_val c) ?a s < (a + 1) * base * base ^ length s"
    by (rule less_le_trans)
  with IH(1) show ?case by (simp add: algebra_simps)
qed

lemma parse_octet_range:
  assumes "parse_octet s = Some n"
  shows "0 \<le> n \<and> n \<le> 255"
proof -
  from assms have d: "list_all is_ascii_digit s" and n: "n = int_of_str 10 s" and "n \<le> 255"
    by (auto simp: parse_octet_def Let_def split: if_splits)
  from d have "\<forall>c \<in> set s. 0 \<le> digit_val c \<and> digit_val c \<le> 10 - 1"
    by (auto simp: list_all_iff dest: digit_val_dec)
  from foldl_digits_bound[OF _ this, of 0] have "0 \<le> n" by (simp add: n int_of_str_def)
  with \<open>n \<le> 255\<close> show ?thesis by simp
qed

lemma parse_hextet_range:
  assumes "parse_hextet s = Some n"
  shows "0 \<le> n \<and> n < 65536"
proof -
  from assms have d: "list_all is_hex_digit s" and n: "n = int_of_str 16 s" and l: "length s \<le> 4"
    by (auto simp: parse_hextet_def split: if_splits)
  from d have "\<forall>c \<in> set s. 0 \<le> digit_val c \<and> digit_val c \<le> 16 - 1"
    by (auto simp: list_all_iff dest: digit_val_hex)
  from foldl_digits_bound[OF _ this, of 0]
  have b: "0 \<le> n" "n < 16 ^ length s" by (simp_all add: n int_of_str_def)
  from l have "(16::int) ^ length s \<le> 16 ^ 4" by (intro power_increasing) simp_all
  with b show ?thesis by simp
qed

lemma those_opt_all:
  assumes "those_opt (map f xs) = Some ys"
  shows "length ys = length xs \<and> (\<forall>y \<in> set ys. \<exists>x \<in> set xs. f x = Some y)"
  using assms
proof (induction xs arbitrary: ys)
  case Nil
  then show ?case by simp
next
  case (Cons x xs)
  then show ?case
    by (cases "f x") (auto split: option.splits)
qed

lemma from_bytes_bound:
  fixes a :: int
  assumes "\<forall>b \<in> set bs. 0 \<le> b \<and> b \<le> 255" "0 \<le> a"
  shows "0 \<le> foldl (\<lambda>a b. a * 256 + b) a bs \<and>
         foldl (\<lambda>a b. a * 256 + b) a bs < (a + 1) * 256 ^ length bs"
  using assms
proof (induction bs arbitrary: a)
  case Nil
  then show ?case by (simp add: algebra_simps)
next
  case (Cons b bs)
  let ?a = "a * 256 + b"
  from Cons.prems have a0: "0 \<le> ?a" by simp
  from Cons.prems have "\<forall>b \<in> set bs. 0 \<le> b \<and> b \<le> 255" by simp
  from Cons.IH[OF this a0]
  have IH: "0 \<le> foldl (\<lambda>a b. a * 256 + b) ?a bs"
    "foldl (\<lambda>a b. a * 256 + b) ?a bs < (?a + 1) * 256 ^ length bs" by simp_all
  from Cons.prems have "?a + 1 \<le> (a + 1) * 256" by (simp add: algebra_simps)
  then have "(?a + 1) * 256 ^ length bs \<le> (a + 1) * 256 * 256 ^ length bs"
    by (rule mult_right_mono) simp
  with IH(2) have "foldl (\<lambda>a b. a * 256 + b) ?a bs < (a + 1) * 256 * 256 ^ length bs"
    by (rule less_le_trans)
  with IH(1) show ?case by (simp add: algebra_simps)
qed

lemma v4_range:
  assumes "v4_ip_int_from_string s = Some n"
  shows "0 \<le> n \<and> n < 2 ^ 32"
proof -
  from assms obtain bs where
    l: "length (split_on CHR ''.'' s) = 4" and
    t: "those_opt (map parse_octet (split_on CHR ''.'' s)) = Some bs" and
    n: "n = from_bytes bs"
    by (auto simp: v4_ip_int_from_string_def Let_def split: if_splits)
  from those_opt_all[OF t] l have lb: "length bs = 4"
    and "\<forall>b \<in> set bs. 0 \<le> b \<and> b \<le> 255"
    by (auto dest: parse_octet_range)
  from from_bytes_bound[OF this(2), of 0] lb show ?thesis
    by (simp add: n from_bytes_def)
qed

lemma IPv4Address_ip_range: "IPv4Address_ip s = Some n \<Longrightarrow> 0 \<le> n \<and> n < 2 ^ 32"
  by (auto simp: IPv4Address_ip_def split: if_splits dest: v4_range)

lemma shift_in_bound:
  assumes "\<forall>h \<in> set hs. 0 \<le> h \<and> h < 65536" "0 \<le> a" "a < 2 ^ k"
  shows "0 \<le> shift_in a hs \<and> shift_in a hs < 2 ^ (k + 16 * length hs)"
  using assms
proof (induction hs arbitrary: a k)
  case Nil
  then show ?case by (simp add: shift_in_def)
next
  case (Cons h hs)
  let ?a = "push_bit 16 a OR h"
  from Cons.prems have h: "0 \<le> h" "h < 65536" by simp_all
  have p0: "0 \<le> push_bit 16 a" using Cons.prems(2) by simp
  have "a * 2 ^ 16 < 2 ^ k * 2 ^ 16" using Cons.prems(3) by simp
  then have p1: "push_bit 16 a < 2 ^ (k + 16)" by (simp add: push_bit_eq_mult power_add)
  have "(2::int) ^ 16 \<le> 2 ^ (k + 16)" by (intro power_increasing) simp_all
  with h(2) have h1: "h < 2 ^ (k + 16)" by simp
  have a0: "0 \<le> ?a" using p0 h(1) by simp
  have a1: "?a < 2 ^ (k + 16)" using p0 p1 h1 by (rule OR_upper)
  from Cons.prems(1) have "\<forall>h \<in> set hs. 0 \<le> h \<and> h < 65536" by simp
  from Cons.IH[OF this a0 a1] show ?case
    by (simp add: shift_in_def add.assoc add.commute add.left_commute)
qed

lemma hi_lo_skipped_sum:
  assumes "hi_lo_skipped ps skip_index = Some (hi, lo, sk)"
  shows "hi + lo + sk = 8"
  using assms
  by (cases skip_index) (auto simp: hi_lo_skipped_def Let_def split: if_splits)

lemma v6_range:
  assumes "v6_ip_int_from_string s = Some n"
  shows "0 \<le> n \<and> n < 2 ^ 128"
proof -
  from assms obtain ps skip_index hi lo sk his los where
    hl: "hi_lo_skipped ps skip_index = Some (hi, lo, sk)" and
    th: "those_opt (map parse_hextet (take hi ps)) = Some his" and
    tl: "those_opt (map parse_hextet (drop (length ps - lo) ps)) = Some los" and
    n: "n = shift_in (push_bit (16 * sk) (shift_in 0 his)) los"
    by (auto simp: v6_ip_int_from_string_def Let_def split: if_splits option.splits)
  from those_opt_all[OF th] have lh: "length his \<le> hi"
    and bh: "\<forall>h \<in> set his. 0 \<le> h \<and> h < 65536"
    by (auto dest: parse_hextet_range)
  from those_opt_all[OF tl] have ll: "length los \<le> lo"
    and bl: "\<forall>h \<in> set los. 0 \<le> h \<and> h < 65536"
    by (auto dest: parse_hextet_range)
  from shift_in_bound[OF bh, of 0 0] have x: "0 \<le> shift_in 0 his"
    "shift_in 0 his < 2 ^ (16 * length his)" by simp_all
  let ?y = "push_bit (16 * sk) (shift_in 0 his)"
  have y0: "0 \<le> ?y" using x(1) by simp
  have "shift_in 0 his * 2 ^ (16 * sk) < 2 ^ (16 * length his) * 2 ^ (16 * sk)"
    using x(2) by simp
  then have y1: "?y < 2 ^ (16 * length his + 16 * sk)"
    by (simp add: push_bit_eq_mult power_add)
  from shift_in_bound[OF bl y0 y1] have z: "0 \<le> n"
    "n < 2 ^ (16 * length his + 16 * sk + 16 * length los)" by (simp_all add: n)
  from hi_lo_skipped_sum[OF hl] lh ll
  have "16 * length his + 16 * sk + 16 * length los \<le> 128" by simp
  then have "(2::int) ^ (16 * length his + 16 * sk + 16 * length los) \<le> 2 ^ 128"
    by (intro power_increasing) simp_all
  with z show ?thesis by simp
qed

lemma ip_address_range:
  assumes "ip_address s = Some a"
  shows "0 \<le> ip_of a \<and> ip_of a < 2 ^ nat (max_prefixlen (version a))"
proof (cases "IPv4Address_ip s")
  case (Some n)
  with assms have "a = IPv4Address n" by (simp add: ip_address_def)
  with IPv4Address_ip_range[OF Some] show ?thesis by simp
next
  case None
  with assms have "IPv6Address_of s = Some a" by (simp add: ip_address_def)
  then obtain ip sc addr where a: "a = IPv6Address ip sc"
    and v: "v6_ip_int_from_string addr = Some ip"
    by (auto simp: IPv6Address_of_def split: if_splits option.splits)
  from v6_range[OF v] a show ?thesis by simp
qed

section \<open>Networks and their blocks\<close>

lemma net_of_block:
  "net_last (IPNetwork v (fst n) (snd n)) = blk_last (max_prefixlen v) n"
  "net_addrs (IPNetwork v (fst n) (snd n)) = blk_addrs (max_prefixlen v) n"
  by (simp_all add: net_last_def net_addrs_def blk_last_def blk_addrs_def)

lemma sorted_wrt_disjoint:
  assumes "sorted_wrt (\<lambda>n m. net_last n < network_address m) nets"
    and "i < j" "j < length nets"
  shows "net_addrs (nets ! i) \<inter> net_addrs (nets ! j) = {}"
proof -
  from assms have "net_last (nets ! i) < network_address (nets ! j)"
    by (simp add: sorted_wrt_iff_nth_less)
  then show ?thesis by (auto simp: net_addrs_def)
qed

section \<open>The claims\<close>

text \<open>
  C7. For the range \<open>1.0.0.5\<close> to \<open>1.0.0.9\<close>, \<open>ip_range_to_cidrs\<close> returns exactly
  \<open>1.0.0.5/32\<close>, \<open>1.0.0.6/31\<close>, \<open>1.0.0.8/31\<close>, in that order; these are the networks
  \<open>summarize_address_range\<close> yields, the union of their addresses is the five addresses
  of the range, and a run on that one record writes one row per block, the three rows
  sharing the record's other fields.
\<close>

theorem range_5_to_9_blocks:
  "ip_range_to_cidrs (Some ''1.0.0.5'') (Some ''1.0.0.9'') =
     Inr [''1.0.0.5/32'', ''1.0.0.6/31'', ''1.0.0.8/31''] \<and>
   ip_address ''1.0.0.5'' = Some (IPv4Address 16777221) \<and>
   ip_address ''1.0.0.9'' = Some (IPv4Address 16777225) \<and>
   summarize_address_range (IPv4Address 16777221) (IPv4Address 16777225) =
     Inr [IPNetwork 4 16777221 32, IPNetwork 4 16777222 31, IPNetwork 4 16777224 31] \<and>
   net_addrs (IPNetwork 4 16777221 32) \<union> net_addrs (IPNetwork 4 16777222 31) \<union>
     net_addrs (IPNetwork 4 16777224 31) = {16777221 .. 16777225} \<and>
   card {16777221 .. 16777225 :: int} = 5 \<and>
   (\<exists>res. process_csv tbl mb [[''1.0.0.5'', ''1.0.0.9'', ct, c, sp, ci]] = Inr res \<and>
     merged res =
       [header,
        [''1.0.0.5/32'', take 2 ct, upper c,
         (if upper c = [] then [] else get_country_name tbl (upper c)), sp, ci],
        [''1.0.0.6/31'', take 2 ct, upper c,
         (if upper c = [] then [] else get_country_name tbl (upper c)), sp, ci],
        [''1.0.0.8/31'', take 2 ct, upper c,
         (if upper c = [] then [] else get_country_name tbl (upper c)), sp, ci]])"
proof -
  let ?line = "[''1.0.0.5'', ''1.0.0.9'', ct, c, sp, ci]"
  obtain mk where mk: "enrich tbl (dict_row ?line) = Inr mk"
    by (simp add: enrich_def dict_row_def field_def Let_def)
  have wr: "writerow (mk x) =
      [x, take 2 ct, upper c,
       (if upper c = [] then [] else get_country_name tbl (upper c)), sp, ci]" for x
    using mk by (auto simp: enrich_def dict_row_def field_def Let_def writerow_def cell_def)
  have cs: "ip_range_to_cidrs (field ?line 0) (field ?line 1) =
      Inr [''1.0.0.5/32'', ''1.0.0.6/31'', ''1.0.0.8/31'']"
    using cidrs_5_9 by (simp add: field_def)
  from process_csv_single[OF cs _ mk, of mb]
  have run: "\<exists>res. process_csv tbl mb [?line] = Inr res \<and>
      merged res = header # map (\<lambda>c. writerow (mk c)) [''1.0.0.5/32'', ''1.0.0.6/31'', ''1.0.0.8/31'']"
    by simp
  show ?thesis
    using cidrs_5_9 parse_5_9 summarize_5_9 addrs_5_9 run by (simp add: wr)
qed

text \<open>
  C2, at the input where the code departs from it. A record whose start is an IPv4 and
  whose end is an IPv6 address makes \<open>summarize_address_range\<close> raise \<open>TypeError\<close>, which
  the \<open>except (ValueError, AddressValueError)\<close> of \<open>ip_range_to_cidrs\<close> does not catch:
  the run ends there with only the header written, whatever records follow, and no
  merged file is made. (For an address that does not parse and for a start above the
  end the code does what C2 says: \<open>invalid_address_no_blocks\<close>,
  \<open>reversed_range_no_blocks\<close>, \<open>no_blocks_discarded\<close>.)
\<close>

theorem mixed_families_abort:
  "process_csv tbl mb ([''1.0.0.0'', ''::1'', ''EU'', ''DE'', [], []] # rest) =
     Inl (TypeError, [[header]])"
  by (simp add: process_csv_def DictReader_def dict_row_def field_def process_row_def
      cidrs_mixed initial_state_def open_new_file_def csv_files_def Let_def)



text \<open>
  C3. In every run (also one that an exception ends), every part file but the last was
  closed when, after a whole row, the size estimate of its data rows had reached the
  threshold for the first time: it has a data row, the estimate of all its data rows is
  at least the threshold, and after each earlier row the estimate was still below it.
  The rows of the last, open part are below the threshold after every row. The
  threshold of \<open>process_csv\<close> is \<open>max_size_mb * 1024 * 1024\<close>. Rows are whole elements of
  exactly one file.
\<close>

theorem partitions_close_at_threshold:
  "(\<forall>d \<in> set (butlast (data_rows (csv_files (final_state
        (process_rows tbl mx rows initial_state))))). closed_ok mx d) \<and>
   open_ok mx (last (data_rows (csv_files (final_state
        (process_rows tbl mx rows initial_state))))) \<and>
   files_of (process_csv tbl mb lines) =
     csv_files (final_state
        (process_rows tbl (mb * 1024 * 1024) (DictReader lines) initial_state))"
proof -
  let ?st = "final_state (process_rows tbl mx rows initial_state)"
  have inv: "state_inv mx ?st" using final_files_inv by blast
  have dr: "data_rows (csv_files ?st) = data_rows (closed_files ?st) @ [open_data ?st]"
    by (rule data_rows_csv_files)
  show ?thesis
    unfolding dr using inv files_of_process_csv[of tbl mb lines]
    by (simp add: state_inv_def)
qed

theorem partitions_close_at_threshold_witness:
  "butlast (data_rows (csv_files (final_state
     (process_rows (Map.empty(''US'' \<mapsto> ''United States'')) 60
        [dict_row [''1.0.0.5'', ''1.0.0.9'', ''NA'', ''US'', [], []]] initial_state)))) =
     [[[''1.0.0.5/32'', ''NA'', ''US'', ''United States'', [], []],
       [''1.0.0.6/31'', ''NA'', ''US'', ''United States'', [], []]]] \<and>
   60 \<le> est_rows [[''1.0.0.5/32'', ''NA'', ''US'', ''United States'', [], []],
                   [''1.0.0.6/31'', ''NA'', ''US'', ''United States'', [], []]] \<and>
   est_rows (take 1 [[''1.0.0.5/32'', ''NA'', ''US'', ''United States'', [], []],
                     [''1.0.0.6/31'', ''NA'', ''US'', ''United States'', [], []]]) < 60"
proof -
  let ?tbl = "Map.empty(''US'' \<mapsto> ''United States'')"
  let ?rows = "[dict_row [''1.0.0.5'', ''1.0.0.9'', ''NA'', ''US'', [], []]]"
  let ?d = "[[''1.0.0.5/32'', ''NA'', ''US'', ''United States'', [], []],
             [''1.0.0.6/31'', ''NA'', ''US'', ''United States'', [], []]]"
  have ev: "butlast (data_rows (csv_files (final_state
      (process_rows ?tbl 60 ?rows initial_state)))) = [?d]"
    by code_simp
  from partitions_close_at_threshold [of ?tbl 60 ?rows]
  have "closed_ok 60 ?d" unfolding ev by simp
  then have "60 \<le> est_rows ?d" and "est_rows (take 1 ?d) < 60"
    unfolding closed_ok_def by auto
  with ev show ?thesis by simp
qed

text \<open>
  C4. In a run that returns, the header is the first row of part 1 and occurs nowhere
  else, neither later in part 1 nor in a part of higher index; the merged file is the
  header followed by the data rows of all parts in the order of the parts, so it holds
  the header exactly once and as many data rows as the parts together.
\<close>

theorem header_and_merge:
  assumes "process_csv tbl mb lines = Inr res"
  shows "parts res \<noteq> [] \<and>
         (\<exists>ds. parts res ! 0 = header # ds \<and> header \<notin> set ds) \<and>
         (\<forall>i. 0 < i \<and> i < length (parts res) \<longrightarrow> header \<notin> set (parts res ! i)) \<and>
         merged res = header # concat (data_rows (parts res)) \<and>
         count_list (merged res) header = 1 \<and>
         int (length (merged res)) - 1 = (\<Sum>p\<leftarrow>data_rows (parts res). int (length p))"
proof -
  define st where "st = final_state (process_rows tbl (mb * 1024 * 1024) (DictReader lines) initial_state)"
  have inv: "state_inv (mb * 1024 * 1024) st" and ho: "header_once (concat (csv_files st))"
    unfolding st_def using final_files_inv by blast+
  from inv obtain ds where ds: "hd (csv_files st) = header # ds" by (auto simp: state_inv_def)
  have ne: "csv_files st \<noteq> []" by (rule csv_files_nonempty)
  have mg: "merge_files (csv_files st) = Inr (concat (csv_files st))"
    using ds ne by (rule merge_files_ok)
  have fo: "files_of (process_csv tbl mb lines) = csv_files st"
    unfolding st_def by (rule files_of_process_csv)
  with assms have p: "parts res = csv_files st" by (simp add: files_of_def)
  obtain st' where pr:
    "process_rows tbl (mb * 1024 * 1024) (DictReader lines) initial_state = Inr st'"
  proof (cases "process_rows tbl (mb * 1024 * 1024) (DictReader lines) initial_state")
    case (Inl a)
    with assms show ?thesis unfolding process_csv_def Let_def by (cases a) simp
  next
    case (Inr b)
    with that show ?thesis by blast
  qed
  have st': "st' = st" unfolding st_def pr by (simp add: final_state_def)
  have m: "merged res = concat (csv_files st)"
    using assms unfolding process_csv_def Let_def pr st' by (simp add: mg) auto
  have cc: "concat (csv_files st) = header # concat (data_rows (csv_files st))"
    using ds ne by (rule concat_data_rows)
  from ho cc have nh: "header \<notin> set (concat (data_rows (csv_files st)))"
    by (auto simp: header_once_def)
  have first: "\<exists>ds. csv_files st ! 0 = header # ds \<and> header \<notin> set ds"
  proof -
    from ne ds have e: "csv_files st ! 0 = header # ds" by (simp add: hd_conv_nth)
    from ne e have "data_rows (csv_files st) = ds # tl (csv_files st)"
      by (cases "csv_files st") (simp_all add: data_rows_def)
    with nh have "header \<notin> set ds" by simp
    with e show ?thesis by blast
  qed
  have later: "header \<notin> set (csv_files st ! i)" if "0 < i" "i < length (csv_files st)" for i
  proof -
    from ne have d: "data_rows (csv_files st) = tl (hd (csv_files st)) # tl (csv_files st)"
      by (cases "csv_files st") (simp_all add: data_rows_def)
    from that ne have "csv_files st ! i \<in> set (tl (csv_files st))"
      by (cases "csv_files st"; cases i) simp_all
    with nh d show ?thesis by auto
  qed
  have cnt: "count_list (concat (csv_files st)) header = 1"
    using nh unfolding cc by (simp add: count_list_0_iff)
  have len: "int (length (concat (csv_files st))) - 1 = (\<Sum>p\<leftarrow>data_rows (csv_files st). int (length p))"
    unfolding cc by (simp add: length_concat sum_list_of_nat[symmetric] comp_def)
  show ?thesis unfolding p m using ne first later cc cnt len by auto
qed

theorem header_and_merge_witness:
  "process_csv Map.empty 0 [[''1.0.0.0'', ''1.0.0.1'', ''NA'', ''US'', [], []], [''2.0.0.0'', ''2.0.0.0'', ''EU'', ''DE'', [], []]] =
     Inr \<lparr>parts = [[header, [''1.0.0.0/31'', ''NA'', ''US'', ''US'', [], []]],
                    [[''2.0.0.0/32'', ''EU'', ''DE'', ''DE'', [], []]], []],
          merged = [header, [''1.0.0.0/31'', ''NA'', ''US'', ''US'', [], []],
                    [''2.0.0.0/32'', ''EU'', ''DE'', ''DE'', [], []]],
          input_rows = 2, output_rows = 2, errors = 0\<rparr> \<and>
   count_list [header, [''1.0.0.0/31'', ''NA'', ''US'', ''US'', [], []],
               [''2.0.0.0/32'', ''EU'', ''DE'', ''DE'', [], []]] header = 1"
proof -
  have ev: "process_csv Map.empty 0 [[''1.0.0.0'', ''1.0.0.1'', ''NA'', ''US'', [], []], [''2.0.0.0'', ''2.0.0.0'', ''EU'', ''DE'', [], []]] =
     Inr \<lparr>parts = [[header, [''1.0.0.0/31'', ''NA'', ''US'', ''US'', [], []]],
                    [[''2.0.0.0/32'', ''EU'', ''DE'', ''DE'', [], []]], []],
          merged = [header, [''1.0.0.0/31'', ''NA'', ''US'', ''US'', [], []],
                    [''2.0.0.0/32'', ''EU'', ''DE'', ''DE'', [], []]],
          input_rows = 2, output_rows = 2, errors = 0\<rparr>"
    by code_simp
  let ?res = "\<lparr>parts = [[header, [''1.0.0.0/31'', ''NA'', ''US'', ''US'', [], []]],
                    [[''2.0.0.0/32'', ''EU'', ''DE'', ''DE'', [], []]], []],
          merged = [header, [''1.0.0.0/31'', ''NA'', ''US'', ''US'', [], []],
                    [''2.0.0.0/32'', ''EU'', ''DE'', ''DE'', [], []]],
          input_rows = 2, output_rows = 2, errors = 0\<rparr>"
  have "count_list (merged ?res) header = 1"
    using header_and_merge [OF ev] by blast
  then have cnt: "count_list [header, [''1.0.0.0/31'', ''NA'', ''US'', ''US'', [], []],
               [''2.0.0.0/32'', ''EU'', ''DE'', ''DE'', [], []]] header = 1"
    by (simp only: result.select_convs)
  show ?thesis using ev cnt by (rule conjI)
qed

text \<open>
  C5, amended. For a record whose range yields blocks and whose country field is present,
  one row is written for each block, in order; its continent code is the first two
  characters of the continent (empty when the field is absent or empty), its country code
  the upper-cased country, its country name empty when the country code is empty and
  otherwise the table's entry for the code with the code itself as fallback, and its
  region and city are the record's \<open>stateprov\<close> and \<open>city\<close>, with \<open>None\<close> for an empty or
  absent value.
\<close>

theorem enrich_row:
  assumes "ip_range_to_cidrs (ip_start r) (ip_end r) = Inr cidrs" and "cidrs \<noteq> []"
    and "country r = Some c" and "state_inv mx st"
  shows "\<exists>mk st'. enrich tbl r = Inr mk \<and> process_row tbl mx r st = Inr st' \<and>
           concat (csv_files st') = concat (csv_files st) @ map (\<lambda>cidr. writerow (mk cidr)) cidrs \<and>
           output_count st' = output_count st + int (length cidrs) \<and>
           (\<forall>cidr. mk cidr =
              \<lparr>network = cidr,
               continent_code = (case continent r of None \<Rightarrow> [] | Some x \<Rightarrow> take 2 x),
               country_code = upper c,
               country_name = (if upper c = [] then []
                               else (case tbl (upper c) of Some name \<Rightarrow> name | None \<Rightarrow> upper c)),
               region_name = (case stateprov r of None \<Rightarrow> None | Some s \<Rightarrow> if s = [] then None else Some s),
               city_name = (case city r of None \<Rightarrow> None | Some s \<Rightarrow> if s = [] then None else Some s)\<rparr>)"
proof -
  let ?st0 = "st\<lparr>row_count := row_count st + 1\<rparr>"
  obtain mk where mk: "enrich tbl r = Inr mk"
    using assms(3) by (simp add: enrich_def Let_def)
  have inv0: "state_inv mx ?st0" using assms(4) by simp
  have pr: "process_row tbl mx r st = Inr (write_cidrs mx mk cidrs ?st0)"
    using assms(1,2) mk by (simp add: process_row_def Let_def)
  have rows: "concat (csv_files (write_cidrs mx mk cidrs ?st0)) =
      concat (csv_files st) @ map (\<lambda>cidr. writerow (mk cidr)) cidrs"
    using write_cidrs_rows[OF inv0, of mk cidrs] by simp
  have cnt: "output_count (write_cidrs mx mk cidrs ?st0) = output_count st + int (length cidrs)"
    by (simp add: write_cidrs_counts)
  have shape: "mk cidr =
      \<lparr>network = cidr,
       continent_code = (case continent r of None \<Rightarrow> [] | Some x \<Rightarrow> take 2 x),
       country_code = upper c,
       country_name = (if upper c = [] then []
                       else (case tbl (upper c) of Some name \<Rightarrow> name | None \<Rightarrow> upper c)),
       region_name = (case stateprov r of None \<Rightarrow> None | Some s \<Rightarrow> if s = [] then None else Some s),
       city_name = (case city r of None \<Rightarrow> None | Some s \<Rightarrow> if s = [] then None else Some s)\<rparr>" for cidr
    using mk assms(3)
    by (auto simp: enrich_def Let_def get_country_name_def upper_idem split: option.splits)
  show ?thesis using mk pr rows cnt shape by blast
qed

theorem enrich_row_witness:
  "concat (csv_files (final_state
     (process_row (Map.empty(''US'' \<mapsto> ''United States'')) 60
        (dict_row [''1.0.0.0'', ''1.0.0.255'', ''NAM'', ''us'', [], ''Boston'']) initial_state))) =
     [header, [''1.0.0.0/24'', ''NA'', ''US'', ''United States'', [], ''Boston'']]"
proof -
  let ?tbl = "Map.empty(''US'' \<mapsto> ''United States'')"
  let ?r = "dict_row [''1.0.0.0'', ''1.0.0.255'', ''NAM'', ''us'', [], ''Boston'']"
  have c: "ip_range_to_cidrs (ip_start ?r) (ip_end ?r) = Inr [''1.0.0.0/24'']"
    by code_simp
  have ne: "[''1.0.0.0/24''] \<noteq> []" by simp
  have co: "country ?r = Some ''us''" by (simp add: dict_row_def field_def)
  have up: "upper ''us'' = ''US''" by code_simp
  have h: "concat (csv_files initial_state) = [header]"
    by (simp add: initial_state_def open_new_file_def csv_files_def)
  from enrich_row [where tbl = ?tbl and mx = 60, OF c ne co state_inv_initial]
  obtain mk st' where
    "process_row ?tbl 60 ?r initial_state = Inr st'"
    "concat (csv_files st') = concat (csv_files initial_state) @
       map (\<lambda>cidr. writerow (mk cidr)) [''1.0.0.0/24'']"
    "\<forall>cidr. mk cidr =
       \<lparr>network = cidr,
        continent_code = (case continent ?r of None \<Rightarrow> [] | Some x \<Rightarrow> take 2 x),
        country_code = upper ''us'',
        country_name = (if upper ''us'' = [] then []
                        else (case ?tbl (upper ''us'') of Some name \<Rightarrow> name | None \<Rightarrow> upper ''us'')),
        region_name = (case stateprov ?r of None \<Rightarrow> None | Some s \<Rightarrow> if s = [] then None else Some s),
        city_name = (case city ?r of None \<Rightarrow> None | Some s \<Rightarrow> if s = [] then None else Some s)\<rparr>"
    by blast
  then show ?thesis
    by (simp add: final_state_def h up writerow_def cell_def dict_row_def field_def)
qed

text \<open>
  C5 as stated fails where the table has an entry for the empty code, which
  \<open>load_country_names\<close> makes from a code of blanks: the row of a record with an empty
  country has the empty country name, not the table's value.
\<close>

theorem empty_code_not_looked_up:
  "load_country_names [(Some '' '', Some ''Nowhere'')] (upper []) = Some ''Nowhere'' \<and>
   process_csv (load_country_names [(Some '' '', Some ''Nowhere'')]) 90
       [[''1.0.0.0'', ''1.0.0.255'', ''NA'', [], [], []]] =
     Inr \<lparr>parts = [[header, [''1.0.0.0/24'', ''NA'', [], [], [], []]]],
          merged = [header, [''1.0.0.0/24'', ''NA'', [], [], [], []]],
          input_rows = 1, output_rows = 1, errors = 0\<rparr>"
  by code_simp







text \<open>
  C1, amended. For two address strings that parse to addresses \<open>a\<close> and \<open>b\<close> of the same
  family, with \<open>a\<close> below \<open>b\<close> or equal to it as address objects (equal IPv6 addresses have
  the same scope id), \<open>ip_range_to_cidrs\<close> returns the strings of a non-empty list of
  networks whose addresses together are exactly the addresses from \<open>a\<close> to \<open>b\<close>; each
  network ends below the start of the next, so the list is ascending and no two networks
  overlap; and each is a proper network of that family: its address is a multiple of its size.
\<close>

theorem range_to_cidrs_partition:
  assumes "ip_address (str_opt start_ip) = Some a"
    and "ip_address (str_opt end_ip) = Some b"
    and "version a = version b"
    and "addr_lt a b \<or> a = b"
  shows "\<exists>nets. ip_range_to_cidrs start_ip end_ip = Inr (map str_network nets) \<and>
           summarize_address_range a b = Inr nets \<and>
           nets \<noteq> [] \<and>
           (\<Union>n \<in> set nets. net_addrs n) = {ip_of a .. ip_of b} \<and>
           sorted_wrt (\<lambda>n m. net_last n < network_address m) nets \<and>
           (\<forall>i j. i < j \<and> j < length nets \<longrightarrow>
              net_addrs (nets ! i) \<inter> net_addrs (nets ! j) = {}) \<and>
           (\<forall>n \<in> set nets. net_version n = version a \<and>
              0 \<le> prefixlen n \<and> prefixlen n \<le> max_prefixlen (version a) \<and>
              2 ^ nat (max_prefixlen (version a) - prefixlen n) dvd network_address n)"
proof -
  let ?v = "version a"
  let ?bits = "max_prefixlen ?v"
  let ?blocks = "summarize_loop ?bits (ip_of a) (ip_of b)"
  let ?nets = "map (\<lambda>n. IPNetwork ?v (fst n) (snd n)) ?blocks"
  from assms(4) have le: "ip_of a \<le> ip_of b" and ngt: "\<not> addr_gt a b"
    by (auto simp: addr_lt_def addr_gt_def split: if_splits)
  from ip_address_range[OF assms(1)] have a0: "0 \<le> ip_of a" by simp
  from ip_address_range[OF assms(2)] assms(3) have b1: "ip_of b < 2 ^ nat ?bits" by simp
  note inv = summarize_loop_inv[OF max_prefixlen_nonneg a0 le b1]
  have sm: "summarize_address_range a b = Inr ?nets"
    using assms(3) ngt summarize_nets[OF a0 le b1]
    by (simp add: summarize_address_range_def del: max_prefixlen.simps)
  have r: "ip_range_to_cidrs start_ip end_ip = Inr (map str_network ?nets)"
    using assms(1,2) sm by (simp add: ip_range_to_cidrs_def)
  have ne: "?nets \<noteq> []" using inv by simp
  have un: "(\<Union>n \<in> set ?nets. net_addrs n) = {ip_of a .. ip_of b}"
    using inv by (simp add: net_of_block del: max_prefixlen.simps)
  have so: "sorted_wrt (\<lambda>n m. net_last n < network_address m) ?nets"
    using inv by (simp add: sorted_wrt_map net_of_block del: max_prefixlen.simps)
  have ok: "\<forall>n \<in> set ?nets. net_version n = ?v \<and>
      0 \<le> prefixlen n \<and> prefixlen n \<le> ?bits \<and>
      2 ^ nat (?bits - prefixlen n) dvd network_address n"
    using inv by (auto simp: block_ok_def simp del: max_prefixlen.simps)
  have dj: "\<forall>i j. i < j \<and> j < length ?nets \<longrightarrow>
      net_addrs (?nets ! i) \<inter> net_addrs (?nets ! j) = {}"
    using sorted_wrt_disjoint[OF so] by blast
  show ?thesis using r sm ne un so dj ok by blast
qed

theorem range_to_cidrs_partition_witness:
  "ip_range_to_cidrs (Some ''1.0.0.5'') (Some ''1.0.0.9'') =
     Inr [''1.0.0.5/32'', ''1.0.0.6/31'', ''1.0.0.8/31''] \<and>
   net_addrs (IPNetwork 4 16777221 32) \<union> net_addrs (IPNetwork 4 16777222 31) \<union>
     net_addrs (IPNetwork 4 16777224 31) = {16777221 .. 16777225} \<and>
   net_addrs (IPNetwork 4 16777221 32) \<inter> net_addrs (IPNetwork 4 16777222 31) = {}"
proof -
  have s: "str_opt (Some ''1.0.0.5'') = ''1.0.0.5''" "str_opt (Some ''1.0.0.9'') = ''1.0.0.9''"
    by (simp_all add: str_opt_def)
  have pa: "ip_address (str_opt (Some ''1.0.0.5'')) = Some (IPv4Address 16777221)"
    unfolding s by (rule parse_5_9)
  have pb: "ip_address (str_opt (Some ''1.0.0.9'')) = Some (IPv4Address 16777225)"
    unfolding s by (rule parse_5_9)
  have v: "version (IPv4Address 16777221) = version (IPv4Address 16777225)" by simp
  have lt: "addr_lt (IPv4Address 16777221) (IPv4Address 16777225) \<or>
      IPv4Address 16777221 = IPv4Address 16777225" by (simp add: addr_lt_def)
  from range_to_cidrs_partition [OF pa pb v lt]
  obtain nets where n:
    "ip_range_to_cidrs (Some ''1.0.0.5'') (Some ''1.0.0.9'') = Inr (map str_network nets)"
    "summarize_address_range (IPv4Address 16777221) (IPv4Address 16777225) = Inr nets"
    "(\<Union>n \<in> set nets. net_addrs n) = {ip_of (IPv4Address 16777221) .. ip_of (IPv4Address 16777225)}"
    "\<forall>i j. i < j \<and> j < length nets \<longrightarrow> net_addrs (nets ! i) \<inter> net_addrs (nets ! j) = {}"
    by blast
  from n(2) have nets: "nets = [IPNetwork 4 16777221 32, IPNetwork 4 16777222 31, IPNetwork 4 16777224 31]"
    by (simp add: summarize_5_9)
  have "0 < (1::nat) \<and> 1 < length nets" unfolding nets by simp
  with n(4) have "net_addrs (nets ! 0) \<inter> net_addrs (nets ! 1) = {}" by blast
  then have dj: "net_addrs (IPNetwork 4 16777221 32) \<inter> net_addrs (IPNetwork 4 16777222 31) = {}"
    unfolding nets by simp
  from n(3) have un: "net_addrs (IPNetwork 4 16777221 32) \<union> net_addrs (IPNetwork 4 16777222 31) \<union>
     net_addrs (IPNetwork 4 16777224 31) = {16777221 .. 16777225}"
    unfolding nets by (simp add: Un_assoc)
  from cidrs_5_9 un dj show ?thesis by blast
qed

text \<open>
  C1 as stated fails for two IPv6 strings with the same address and different scope ids:
  both parse, the start is not above the end as a number, and yet the library compares
  them as \<open>first > last\<close>, raises \<open>ValueError\<close>, and the result is the empty list.
\<close>

theorem scope_ids_unordered:
  "ip_address ''fe80::1%a'' = Some (IPv6Address 338288524927261089654018896841347694593 (Some ''a'')) \<and>
   ip_address ''fe80::1%b'' = Some (IPv6Address 338288524927261089654018896841347694593 (Some ''b'')) \<and>
   ip_range_to_cidrs (Some ''fe80::1%a'') (Some ''fe80::1%b'') = Inr []"
  by code_simp

end
